theory Spec2Isabelle
  imports Main "HOL-Library.AList"
begin

section \<open>Values, objects and slots\<close>

text \<open>
  The collection of \<^verbatim>\<open>enyo.Collection\<close> stores JavaScript values. Attribute values are
  the primitives below; \<^verbatim>\<open>===\<close> on them is equality of the value.
\<close>

datatype jsval = Undefined | Null | Num int | Str string | Bool bool

fun truthy :: "jsval \<Rightarrow> bool" where
  "truthy Undefined = False"
| "truthy Null = False"
| "truthy (Num n) = (n \<noteq> 0)"
| "truthy (Str s) = (s \<noteq> [])"
| "truthy (Bool b) = b"

text \<open>The test \<^verbatim>\<open>v !== null && v !== undefined\<close> of \<^verbatim>\<open>merge\<close>.\<close>

definition defined :: "jsval \<Rightarrow> bool" where
  "defined v = (v \<noteq> Null \<and> v \<noteq> Undefined)"

text \<open>
  Objects live in a heap and are compared by reference. An object is either a raw data
  hash or an instance of the model kind (\<open>is_model\<close>, the \<^verbatim>\<open>instanceof\<close> test; the
  collection's \<^verbatim>\<open>model\<close> is taken to be \<^verbatim>\<open>enyo.Model\<close>, its default). \<open>attrs\<close> holds the
  properties of a raw hash and the attributes of a model instance; \<open>destroyed\<close> is the
  \<^verbatim>\<open>destroyed\<close> property of a model instance (a raw hash keeps its own under the
  attribute of that name).
\<close>

type_synonym ref = nat

record obj =
  is_model :: bool
  attrs :: "string \<Rightarrow> jsval option"
  destroyed :: bool

text \<open>\<^verbatim>\<open>(r.get? r.get(k): r[k])\<close>: a missing property reads as \<^verbatim>\<open>undefined\<close>.\<close>

definition read_key :: "obj \<Rightarrow> string \<Rightarrow> jsval" where
  "read_key ob k = (case attrs ob k of None \<Rightarrow> Undefined | Some v \<Rightarrow> v)"

text \<open>\<^verbatim>\<open>r.destroyed\<close> as \<^verbatim>\<open>add\<close> reads it.\<close>

definition destroyed_prop :: "obj \<Rightarrow> bool" where
  "destroyed_prop ob = (if is_model ob then destroyed ob else truthy (read_key ob ''destroyed''))"

text \<open>
  A slot of an array is a reference to an object, \<^verbatim>\<open>null\<close> or \<^verbatim>\<open>undefined\<close>; the last
  is also what reading past the end of an array gives.
\<close>

datatype slot = Ref ref | NullV | UndefV

fun truthy_slot :: "slot \<Rightarrow> bool" where
  "truthy_slot (Ref a) = True"
| "truthy_slot NullV = False"
| "truthy_slot UndefV = False"

text \<open>An argument that is one record or an array of records, and \<^verbatim>\<open>enyo.isArray(x)? x: [x]\<close>.\<close>

datatype batch = Single slot | Array "slot list"

fun toArray :: "batch \<Rightarrow> slot list" where
  "toArray (Single r) = [r]"
| "toArray (Array rs) = rs"

text \<open>The optional index of \<^verbatim>\<open>add\<close>: not given, \<^verbatim>\<open>null\<close>, or an integer.\<close>

datatype index = NoIndex | NullIndex | Index int

text \<open>The argument of \<^verbatim>\<open>reset\<close>: none (or a falsy value), an array, or another truthy value.\<close>

datatype reset_arg = NoArg | Arr "slot list" | Other

datatype error = InvalidRecordState | TypeError

section \<open>The collection\<close>

text \<open>
  What the collection hands to its store: \<^verbatim>\<open>store._notifyObservers(this, prop)\<close> and
  \<^verbatim>\<open>store.triggerEvent(this, event, args)\<close>, in the order of the calls.
\<close>

datatype event =
  ObserversNotified string
| AddEvent "nat list"
| RemoveEvent "(nat \<times> slot) list"
| ResetEvent "slot list"

text \<open>
  The strategy of a request names the method of the collection that takes the result,
  \<^verbatim>\<open>fn = this[s]\<close>: one of the methods below that change the collection, or a name under
  which the collection has no function (\<open>NoMethod\<close>).
\<close>

datatype strategy =
  AddMethod
| MergeMethod
| RemoveMethod
| ResetMethod
| RemoveAllMethod
| DestroyAllMethod
| FetchMethod
| NoMethod

record fetch_opts =
  opt_replace :: bool
  opt_destroy :: bool
  opt_strategy :: "strategy option"

text \<open>A call deferred by \<^verbatim>\<open>enyo.asyncMethod\<close>: it runs after the current turn.\<close>

datatype task = FetchRecord fetch_opts

record collection =
  heap :: "ref \<Rightarrow> obj"
  next_ref :: ref
  primaryKey :: string
  mergeKeys :: "string list option"
  instanceAllRecords :: bool
  records :: "slot list"
  length_c :: nat
  filtered :: bool
  filtering :: bool
  silenced :: bool
  uRecords :: "slot list option"
  destroyAll_flag :: bool
  events :: "event list"
  pending :: "task list"

text \<open>
  The constructor, for a heap \<open>h\<close> whose references below \<open>n\<close> are in use, the model
  kind's \<^verbatim>\<open>primaryKey\<close> and \<^verbatim>\<open>mergeKeys\<close>, the \<^verbatim>\<open>instanceAllRecords\<close> option and the
  data array: \<^verbatim>\<open>this.records = [].concat(data); this.length = this.records.length\<close>.
\<close>

definition constructor :: "(ref \<Rightarrow> obj) \<Rightarrow> ref \<Rightarrow> string \<Rightarrow> string list option \<Rightarrow> bool
    \<Rightarrow> slot list \<Rightarrow> collection" where
  "constructor h n pk mk eager data =
     \<lparr>heap = h, next_ref = n, primaryKey = pk, mergeKeys = mk, instanceAllRecords = eager,
      records = data, length_c = length data, filtered = False, filtering = False,
      silenced = False, uRecords = None, destroyAll_flag = False, events = [], pending = []\<rparr>"

text \<open>
  An exception leaves the collection as it is at the \<^verbatim>\<open>throw\<close>, no method here catching
  one: a call that raises gives the error and that state.
\<close>

type_synonym failure = "error \<times> collection"

definition notifyObservers :: "collection \<Rightarrow> string \<Rightarrow> collection" where
  "notifyObservers c prop =
     (if \<not> silenced c then c\<lparr>events := events c @ [ObserversNotified prop]\<rparr> else c)"

definition triggerEvent :: "collection \<Rightarrow> event \<Rightarrow> collection" where
  "triggerEvent c e = (if \<not> silenced c then c\<lparr>events := events c @ [e]\<rparr> else c)"

subsection \<open>reset\<close>

text \<open>The tail of \<^verbatim>\<open>reset\<close> when something changed (\<^verbatim>\<open>ch\<close>), \<open>l\<close> the old array's length.\<close>

definition reset_notify :: "collection \<Rightarrow> nat \<Rightarrow> collection" where
  "reset_notify c l =
     (let c1 = (if l \<noteq> length_c c then notifyObservers c ''length'' else c)
      in triggerEvent c1 (ResetEvent (records c1)))"

text \<open>
  With no argument on a filtered collection, \<^verbatim>\<open>reset\<close> takes \<^verbatim>\<open>_uRecords\<close> for its records;
  were that \<^verbatim>\<open>null\<close>, \<^verbatim>\<open>this.records.length\<close> would raise a TypeError. No call below leaves
  a collection filtered with \<^verbatim>\<open>_uRecords\<close> null; the error is given with the state before the
  call.
\<close>

definition reset :: "collection \<Rightarrow> reset_arg \<Rightarrow> failure + collection" where
  "reset c arg =
     (if arg = NoArg \<and> filtered c then
        (case uRecords c of
           None \<Rightarrow> Inl (TypeError, c)
         | Some rr \<Rightarrow>
             (let l = length (records c)
              in Inr (reset_notify
                   (c\<lparr>uRecords := None, records := rr, length_c := length rr, filtered := False\<rparr>) l)))
      else
        (case arg of
           Arr xs \<Rightarrow>
             (let c0 = (if filtering c \<and> \<not> filtered c then c\<lparr>uRecords := Some (records c)\<rparr> else c);
                  l = length (records c0)
              in Inr (reset_notify (c0\<lparr>records := xs, length_c := length xs\<rparr>) l))
         | _ \<Rightarrow> Inr c))"

text \<open>\<^verbatim>\<open>if (this.filtered) { this.reset(); }\<close>, the first line of \<^verbatim>\<open>add\<close>, \<^verbatim>\<open>remove\<close> and \<^verbatim>\<open>fetch\<close>.\<close>

definition restore :: "collection \<Rightarrow> failure + collection" where
  "restore c = (if filtered c then reset c NoArg else Inr c)"

subsection \<open>createRecord and add\<close>

text \<open>
  Modelled from the spec: \<^verbatim>\<open>store.createRecord\<close>, the store's record factory, is not part
  of the collection. It materializes a record of the model kind from the attributes of a
  raw hash; the new object gets the next free reference. \<^verbatim>\<open>createRecord(r, null, false)\<close>
  of the collection calls it and, the index being \<^verbatim>\<open>false\<close>, does not add the record.
\<close>

definition createRecord :: "collection \<Rightarrow> ref \<Rightarrow> slot \<times> collection" where
  "createRecord c a =
     (let n = next_ref c
      in (Ref n, c\<lparr>heap := (heap c)(n := \<lparr>is_model = True, attrs = attrs (heap c a), destroyed = False\<rparr>),
                  next_ref := Suc n\<rparr>))"

text \<open>
  \<^verbatim>\<open>i = (i !== null && !isNaN(i) && (i=Math.max(0,i)) && (i=Math.min(len,i))) || len\<close>:
  each conjunct that is falsy (also the number 0) hands over to \<^verbatim>\<open>|| len\<close>.
\<close>

definition normalize_index :: "index \<Rightarrow> nat \<Rightarrow> nat" where
  "normalize_index i len =
     (case i of
        NoIndex \<Rightarrow> len
      | NullIndex \<Rightarrow> len
      | Index n \<Rightarrow>
          (let a = max 0 n
           in if a = 0 then len
              else (let b = min (int len) a in if b = 0 then len else nat b)))"

text \<open>
  The loop \<^verbatim>\<open>for (var j=0, r; (r=records[j]); ++j)\<close> of \<^verbatim>\<open>add\<close> over the rest of the batch
  from position \<open>j\<close>: it returns the state, the batch as the loop leaves it, and the
  indices pushed. The loop ends at the first falsy entry.
\<close>

fun add_loop :: "collection \<Rightarrow> nat \<Rightarrow> nat \<Rightarrow> slot list \<Rightarrow> failure + (collection \<times> slot list \<times> nat list)" where
  "add_loop c i j [] = Inr (c, [], [])"
| "add_loop c i j (Ref a # rs) =
     (if \<not> is_model (heap c a) then
        (if instanceAllRecords c then
           (let (r', c') = createRecord c a
            in case add_loop c' i (Suc j) rs of
                 Inl e \<Rightarrow> Inl e
               | Inr (c'', rs', added) \<Rightarrow> Inr (c'', r' # rs', (j + i) # added))
         else if destroyed_prop (heap c a) then Inl (InvalidRecordState, c)
         else
           (case add_loop c i (Suc j) rs of
              Inl e \<Rightarrow> Inl e
            | Inr (c'', rs', added) \<Rightarrow> Inr (c'', Ref a # rs', (j + i) # added)))
      else
        (case add_loop c i (Suc j) rs of
           Inl e \<Rightarrow> Inl e
         | Inr (c'', rs', added) \<Rightarrow> Inr (c'', Ref a # rs', added)))"
| "add_loop c i j (r # rs) = Inr (c, r # rs, [])"

text \<open>\<^verbatim>\<open>local.splice(i, 0, r1, ..., rn)\<close>.\<close>

definition splice_in :: "'a list \<Rightarrow> nat \<Rightarrow> 'a list \<Rightarrow> 'a list" where
  "splice_in xs i ys = take i xs @ ys @ drop i xs"

text \<open>
  The end of \<^verbatim>\<open>add\<close>, after the splice: the new length, the notification of the
  observers of \<^verbatim>\<open>length\<close> and the \<^verbatim>\<open>add\<close> event. \<open>len\<close> is the length before the call and
  \<open>local'\<close> the records after the splice.
\<close>

definition add_finish :: "collection \<Rightarrow> nat \<Rightarrow> slot list \<Rightarrow> nat list \<Rightarrow> collection" where
  "add_finish c1 len local' added =
     (let c2 = c1\<lparr>records := local', length_c := length local'\<rparr>;
          c3 = (if len \<noteq> length_c c2 then notifyObservers c2 ''length'' else c2)
      in if added \<noteq> [] then triggerEvent c3 (AddEvent added) else c3)"

definition add :: "collection \<Rightarrow> batch \<Rightarrow> index \<Rightarrow> failure + (nat list \<times> collection)" where
  "add c0 recs idx =
     (case restore c0 of
        Inl e \<Rightarrow> Inl e
      | Inr c \<Rightarrow>
          (let local = records c;
               len = length_c c;
               i = normalize_index idx len;
               rs = toArray recs
           in if rs = [] then Inr ([], c)
              else
                (case add_loop c i 0 rs of
                   Inl e \<Rightarrow> Inl e
                 | Inr (c1, rs', added) \<Rightarrow>
                     Inr (added, add_finish c1 len (splice_in local i rs') added))))"

subsection \<open>indexOf and remove\<close>

text \<open>
  Modelled from the spec: \<^verbatim>\<open>enyo.indexOf\<close> is a utility of the framework, not part of the
  collection. It is the identity search of the doc comment of \<^verbatim>\<open>indexOf\<close>: the first
  index holding the given record, from an optional offset, or -1.
\<close>

fun enyo_indexOf :: "slot \<Rightarrow> slot list \<Rightarrow> int" where
  "enyo_indexOf r [] = - 1"
| "enyo_indexOf r (y # ys) =
     (if y = r then 0 else (let k = enyo_indexOf r ys in if k = - 1 then - 1 else k + 1))"

definition indexOf :: "collection \<Rightarrow> slot \<Rightarrow> nat \<Rightarrow> int" where
  "indexOf c r offset =
     (let k = enyo_indexOf r (drop offset (records c))
      in if k = - 1 then - 1 else k + int offset)"

text \<open>
  \<^verbatim>\<open>rr.splice(start, 0, i)\<close> as JavaScript reads \<open>start\<close>: a negative one counts from the
  end of the array, and the result is clamped to the array.
\<close>

definition splice_insert :: "nat list \<Rightarrow> int \<Rightarrow> nat \<Rightarrow> nat list" where
  "splice_insert rr start i =
     (let len = int (length rr);
          pos = (if start < 0 then max (len + start) 0 else min start len)
      in take (nat pos) rr @ [i] @ drop (nat pos) rr)"

text \<open>
  The first loop of \<^verbatim>\<open>remove\<close>, over the rest of the batch, with the variables
  \<^verbatim>\<open>rr\<close>, \<^verbatim>\<open>d\<close>, \<^verbatim>\<open>x\<close> and \<^verbatim>\<open>m\<close>. The hash \<^verbatim>\<open>d\<close> is an association list from index to
  record, and \<^verbatim>\<open>d[i] = r\<close> an update of it. \<^verbatim>\<open>while (rr[k] < i) { ++k; }\<close> stops at the first
  entry that is not below \<open>i\<close>, or past the end.
\<close>

fun remove_scan :: "collection \<Rightarrow> slot list \<Rightarrow> nat list \<times> (nat \<times> slot) list \<times> nat \<times> nat
    \<Rightarrow> nat list \<times> (nat \<times> slot) list \<times> nat \<times> nat" where
  "remove_scan c [] st = st"
| "remove_scan c (r # rs) (rr, d, x, m) =
     (if truthy_slot r then
        (let i = indexOf c r 0
         in if i > - 1 then
              (let n = nat i
               in if n \<le> m then remove_scan c rs (n # rr, AList.update n r d, x, n)
                  else if n \<ge> x then remove_scan c rs (rr @ [n], AList.update n r d, n, m)
                  else
                    (let k = length (takeWhile (\<lambda>y. y < n) rr)
                     in remove_scan c rs (splice_insert rr (int k - 1) n, AList.update n r d, x, m)))
            else remove_scan c rs (rr, d, x, m))
      else (rr, d, x, m))"

text \<open>\<^verbatim>\<open>this.records.splice(i, 1)\<close>.\<close>

definition splice_out :: "'a list \<Rightarrow> nat \<Rightarrow> 'a list" where
  "splice_out xs i = take i xs @ drop (Suc i) xs"

text \<open>
  The second loop, \<^verbatim>\<open>for (j=rr.length-1; !isNaN((i=rr[j])); --j)\<close>, given \<^verbatim>\<open>rr\<close> last index
  first: it ends when \<open>j\<close> falls below 0. The listeners it removes from the records of the
  model kind are kept by the store and are not part of the collection's state.
\<close>

fun removal_loop :: "nat list \<Rightarrow> slot list \<Rightarrow> slot list" where
  "removal_loop [] xs = xs"
| "removal_loop (i # rest) xs = removal_loop rest (splice_out xs i)"

text \<open>
  The end of \<^verbatim>\<open>remove\<close>, after the removals: the new length, the notification and the
  \<^verbatim>\<open>remove\<close> event. \<open>l\<close> is the length before the call.
\<close>

definition remove_finish :: "collection \<Rightarrow> nat \<Rightarrow> nat list \<Rightarrow> (nat \<times> slot) list \<Rightarrow> collection" where
  "remove_finish c1 l rr d =
     (let c2 = c1\<lparr>length_c := length (records c1)\<rparr>;
          c3 = (if l \<noteq> length_c c2 then notifyObservers c2 ''length'' else c2)
      in if rr \<noteq> [] then triggerEvent c3 (RemoveEvent d) else c3)"

definition remove_c :: "collection \<Rightarrow> batch \<Rightarrow> failure + ((nat \<times> slot) list \<times> collection)" where
  "remove_c c0 rec =
     (case restore c0 of
        Inl e \<Rightarrow> Inl e
      | Inr c \<Rightarrow>
          (let l = length_c c;
               (rr, d, x, m) = remove_scan c (toArray rec) ([], [], 0, 0);
               c1 = c\<lparr>records := removal_loop (rev rr) (records c)\<rparr>
           in Inr (d, remove_finish c1 l rr d)))"

text \<open>The index list \<^verbatim>\<open>rr\<close> that \<^verbatim>\<open>remove\<close> builds for a batch.\<close>

definition remove_order :: "collection \<Rightarrow> batch \<Rightarrow> nat list" where
  "remove_order c rec = fst (remove_scan c (toArray rec) ([], [], 0, 0))"

subsection \<open>removeAll and destroyAll\<close>

definition removeAll_c :: "collection \<Rightarrow> failure + ((nat \<times> slot) list \<times> collection)" where
  "removeAll_c c = remove_c c (Array (records c))"

text \<open>
  Modelled from the spec: the record's \<^verbatim>\<open>destroy()\<close> belongs to the model kind, not to the
  collection. It marks the record destroyed; its \<^verbatim>\<open>destroy\<close> event reaches
  \<^verbatim>\<open>_recordDestroyed\<close>, which does nothing while \<^verbatim>\<open>_destroyAll\<close> is set.
\<close>

definition destroy_record :: "collection \<Rightarrow> ref \<Rightarrow> collection" where
  "destroy_record c a = c\<lparr>heap := (heap c)(a := (heap c a)\<lparr>destroyed := True\<rparr>)\<rparr>"

text \<open>
  \<^verbatim>\<open>for (var k in rr) { (r=rr[k]) && r.destroy(); }\<close> over the keys of the hash in
  ascending order. A raw hash has no \<^verbatim>\<open>destroy\<close> method, so the call raises a TypeError.
\<close>

fun destroy_each :: "collection \<Rightarrow> (nat \<times> slot) list \<Rightarrow> nat list \<Rightarrow> failure + collection" where
  "destroy_each c rr [] = Inr c"
| "destroy_each c rr (k # ks) =
     (case map_of rr k of
        Some (Ref a) \<Rightarrow>
          (if is_model (heap c a) then destroy_each (destroy_record c a) rr ks
           else Inl (TypeError, c))
      | _ \<Rightarrow> destroy_each c rr ks)"

definition destroyAll :: "collection \<Rightarrow> failure + collection" where
  "destroyAll c =
     (case removeAll_c c of
        Inl e \<Rightarrow> Inl e
      | Inr (rr, c1) \<Rightarrow>
          (case destroy_each (c1\<lparr>destroyAll_flag := True\<rparr>) rr (sort (map fst rr)) of
             Inl e \<Rightarrow> Inl e
           | Inr c2 \<Rightarrow> Inr (c2\<lparr>destroyAll_flag := False\<rparr>)))"

subsection \<open>merge\<close>

text \<open>
  The loop over the merge keys, \<^verbatim>\<open>for (var k=0, m; (m=mk[k]); ++k)\<close>, for the incoming
  object \<open>r\<close> and the candidate \<open>cand\<close>, with the variables \<^verbatim>\<open>match\<close> and \<^verbatim>\<open>v\<close>: it assigns
  \<^verbatim>\<open>v\<close>, and ends at an empty key name or at the first key whose values differ.
\<close>

fun keys_loop :: "obj \<Rightarrow> obj \<Rightarrow> string list \<Rightarrow> bool \<times> jsval \<Rightarrow> bool \<times> jsval" where
  "keys_loop r cand [] st = st"
| "keys_loop r cand (m # ms) (match, v) =
     (if m = [] then (match, v)
      else (let v' = read_key r m
            in if v' = read_key cand m then keys_loop r cand ms (True, v') else (False, v')))"

text \<open>
  The body of the inner loop of \<^verbatim>\<open>merge\<close> for the incoming object at \<open>a\<close>, the current
  value of \<^verbatim>\<open>v\<close> and the candidate at \<open>b\<close>: the primary key is compared first, then the
  merge keys if the model kind has any. It returns \<^verbatim>\<open>merged\<close> and the value \<^verbatim>\<open>v\<close> is left
  with.
\<close>

definition candidate_test :: "collection \<Rightarrow> ref \<Rightarrow> jsval \<Rightarrow> ref \<Rightarrow> bool \<times> jsval" where
  "candidate_test c a v b =
     (if defined v \<and> v = read_key (heap c b) (primaryKey c) then (True, v)
      else
        (case mergeKeys c of
           Some mk \<Rightarrow> keys_loop (heap c a) (heap c b) mk (False, v)
         | None \<Rightarrow> (False, v)))"

text \<open>
  The inner loop, \<^verbatim>\<open>for (var j=0, c; (!merged && (c=local[j])); ++j)\<close>: \<open>pre\<close> holds the
  candidates already passed and the last argument those from \<open>j\<close> on. It returns the
  candidate merged with and \<^verbatim>\<open>local\<close> after \<^verbatim>\<open>local.splice(j, 1)\<close>, or nothing when the loop
  ends unmerged (at the end of \<^verbatim>\<open>local\<close> or at a falsy candidate).
\<close>

fun merge_find :: "collection \<Rightarrow> ref \<Rightarrow> jsval \<Rightarrow> slot list \<Rightarrow> slot list \<Rightarrow> (ref \<times> slot list) option" where
  "merge_find c a v pre [] = None"
| "merge_find c a v pre (Ref b # rest) =
     (case candidate_test c a v b of
        (True, v') \<Rightarrow> Some (b, pre @ rest)
      | (False, v') \<Rightarrow> merge_find c a v' (pre @ [Ref b]) rest)"
| "merge_find c a v pre (s # rest) = None"

text \<open>
  Modelled from the spec: \<^verbatim>\<open>enyo.mixin\<close> and the record's \<^verbatim>\<open>setObject\<close>, \<^verbatim>\<open>raw\<close> and \<^verbatim>\<open>parse\<close>
  are not part of the collection. Both branches of \<^verbatim>\<open>if (c.setObject)\<close> apply the incoming
  attributes to the local object at \<open>b\<close>, an incoming value replacing the local one.
\<close>

definition merge_into :: "collection \<Rightarrow> ref \<Rightarrow> ref \<Rightarrow> collection" where
  "merge_into c b a =
     c\<lparr>heap := (heap c)(b := (heap c b)\<lparr>attrs := attrs (heap c b) ++ attrs (heap c a)\<rparr>)\<rparr>"

text \<open>
  The outer loop, \<^verbatim>\<open>for (var i=0, r; (r=records[i]); ++i)\<close>, over the rest of the batch,
  with \<^verbatim>\<open>local\<close> and the array \<^verbatim>\<open>add\<close> of the records that were not merged.
\<close>

fun merge_loop :: "collection \<Rightarrow> slot list \<Rightarrow> slot list \<Rightarrow> slot list \<Rightarrow> collection \<times> slot list" where
  "merge_loop c [] local unmerged = (c, unmerged)"
| "merge_loop c (Ref a # rs) local unmerged =
     (let v = read_key (heap c a) (primaryKey c)
      in if mergeKeys c \<noteq> None \<or> defined v then
           (case merge_find c a v [] local of
              Some (b, local') \<Rightarrow> merge_loop (merge_into c b a) rs local' unmerged
            | None \<Rightarrow> merge_loop c rs local (unmerged @ [Ref a]))
         else merge_loop c rs local (unmerged @ [Ref a]))"
| "merge_loop c (r # rs) local unmerged = (c, unmerged)"

fun batch_truthy :: "batch \<Rightarrow> bool" where
  "batch_truthy (Single r) = truthy_slot r"
| "batch_truthy (Array rs) = True"

definition merge :: "collection \<Rightarrow> batch \<Rightarrow> failure + collection" where
  "merge c recs =
     (if batch_truthy recs then
        (let (c1, unmerged) = merge_loop c (toArray recs) (records c) []
         in if unmerged \<noteq> [] then
              (case add c1 (Array unmerged) NoIndex of
                 Inl e \<Rightarrow> Inl e
               | Inr (added, c2) \<Rightarrow> Inr c2)
            else Inr c1)
      else Inr c)"

subsection \<open>at, map and filter\<close>

definition at :: "collection \<Rightarrow> nat \<Rightarrow> slot \<times> collection" where
  "at c i =
     (let r = (if i < length (records c) then records c ! i else UndefV)
      in case r of
           Ref a \<Rightarrow>
             (if \<not> is_model (heap c a) then
                (let (r', c') = createRecord c a
                 in (r', c'\<lparr>records := (records c')[i := r']\<rparr>))
              else (r, c))
         | _ \<Rightarrow> (r, c))"

text \<open>
  \<^verbatim>\<open>for (var i=0, l=this.length, r; i<l && (r=this.at(i)); ++i)\<close> from index \<open>i\<close>, with the
  results pushed so far. The callback reads the collection and gets the record and the
  index.
\<close>

function map_loop :: "collection \<Rightarrow> (collection \<Rightarrow> slot \<Rightarrow> nat \<Rightarrow> 'b) \<Rightarrow> nat \<Rightarrow> nat \<Rightarrow> 'b list
    \<Rightarrow> 'b list \<times> collection" where
  "map_loop c f i l fs =
     (if i < l then
        (case at c i of
           (r, c') \<Rightarrow>
             (if truthy_slot r then map_loop c' f (Suc i) l (fs @ [f c' r i]) else (fs, c')))
      else (fs, c))"
  by pat_completeness auto
termination
  by (relation "measure (\<lambda>(c, f, i, l, fs). l - i)") auto

definition map_c :: "collection \<Rightarrow> (collection \<Rightarrow> slot \<Rightarrow> nat \<Rightarrow> 'b) \<Rightarrow> 'b list \<times> collection" where
  "map_c c f = map_loop c f 0 (length_c c) []"

function filter_loop :: "collection \<Rightarrow> (collection \<Rightarrow> slot \<Rightarrow> nat \<Rightarrow> bool) \<Rightarrow> nat \<Rightarrow> nat \<Rightarrow> slot list
    \<Rightarrow> slot list \<times> collection" where
  "filter_loop c f i l fs =
     (if i < l then
        (case at c i of
           (r, c') \<Rightarrow>
             (if truthy_slot r then filter_loop c' f (Suc i) l (if f c' r i then fs @ [r] else fs)
              else (fs, c')))
      else (fs, c))"
  by pat_completeness auto
termination
  by (relation "measure (\<lambda>(c, f, i, l, fs). l - i)") auto

definition filter_c :: "collection \<Rightarrow> (collection \<Rightarrow> slot \<Rightarrow> nat \<Rightarrow> bool) \<Rightarrow> slot list \<times> collection" where
  "filter_c c f = filter_loop c f 0 (length_c c) []"

subsection \<open>The filter overlay\<close>

text \<open>
  A filter method is code of the application. It is given by what it does to the
  collection, the calls of \<^verbatim>\<open>reset\<close> it makes, and by what it returns: a falsy value,
  \<^verbatim>\<open>true\<close>, an array, or another truthy value.
\<close>

datatype filter_ret = RetFalsy | RetTrue | RetArray "slot list" | RetOther

type_synonym filter_method = "collection \<Rightarrow> reset_arg list \<times> filter_ret"

fun run_resets :: "collection \<Rightarrow> reset_arg list \<Rightarrow> failure + collection" where
  "run_resets c [] = Inr c"
| "run_resets c (x # xs) = (case reset c x of Inl e \<Rightarrow> Inl e | Inr c' \<Rightarrow> run_resets c' xs)"

text \<open>\<^verbatim>\<open>this._uRecords && this._uRecords.length\<close>.\<close>

definition has_uRecords :: "collection \<Rightarrow> bool" where
  "has_uRecords c = (case uRecords c of None \<Rightarrow> False | Some u \<Rightarrow> u \<noteq> [])"

text \<open>\<^verbatim>\<open>if (r) { this.reset(true === r? undefined: r); }\<close> for the value \<open>r\<close> the method returned.\<close>

definition filter_result :: "collection \<Rightarrow> filter_ret \<Rightarrow> failure + collection" where
  "filter_result c r =
     (case r of
        RetFalsy \<Rightarrow> Inr c
      | RetTrue \<Rightarrow> reset c NoArg
      | RetArray xs \<Rightarrow> reset c (Arr xs)
      | RetOther \<Rightarrow> reset c Other)"

text \<open>
  \<^verbatim>\<open>this.filtering = false; if (this._uRecords && this._uRecords.length) { this.filtered = true; }\<close>
\<close>

definition filter_finish :: "collection \<Rightarrow> collection" where
  "filter_finish c =
     (let c5 = c\<lparr>filtering := False\<rparr>
      in if has_uRecords c5 then c5\<lparr>filtered := True\<rparr> else c5)"

text \<open>
  \<^verbatim>\<open>_filterContent\<close>, for the method \<^verbatim>\<open>this[this.filters[this.activeFilter]]\<close>, if there is
  one.
\<close>

definition filterContent :: "collection \<Rightarrow> filter_method option \<Rightarrow> failure + collection" where
  "filterContent c fm =
     (if \<not> filtering c \<and> (0 < length_c c \<or> has_uRecords c) then
        (case fm of
           None \<Rightarrow> Inr c
         | Some meth \<Rightarrow>
             (let c1 = c\<lparr>filtering := True, silenced := True\<rparr>;
                  (calls, r) = meth c1
              in case run_resets c1 calls of
                   Inl e \<Rightarrow> Inl e
                 | Inr c2 \<Rightarrow>
                     (case filter_result (c2\<lparr>silenced := False\<rparr>) r of
                        Inl e \<Rightarrow> Inl e
                      | Inr c4 \<Rightarrow> Inr (filter_finish c4))))
      else Inr c)"

subsection \<open>fetch\<close>

text \<open>
  \<^verbatim>\<open>fetch\<close> hands the request to \<^verbatim>\<open>enyo.asyncMethod\<close>, which queues it for a later turn, and
  then clears the collection as the options ask. The queued request carries the options
  with \<^verbatim>\<open>opts.strategy = opts.strategy || "add"\<close>.
\<close>

definition with_strategy :: "fetch_opts \<Rightarrow> fetch_opts" where
  "with_strategy opts =
     opts\<lparr>opt_strategy := Some (case opt_strategy opts of None \<Rightarrow> AddMethod | Some s \<Rightarrow> s)\<rparr>"

definition fetch :: "collection \<Rightarrow> fetch_opts \<Rightarrow> failure + collection" where
  "fetch c0 opts =
     (case restore c0 of
        Inl e \<Rightarrow> Inl e
      | Inr c \<Rightarrow>
          (let c1 = c\<lparr>pending := pending c @ [FetchRecord (with_strategy opts)]\<rparr>
           in if opt_replace opts \<and> \<not> opt_destroy opts then
                (case removeAll_c c1 of Inl e \<Rightarrow> Inl e | Inr (rr, c2) \<Rightarrow> Inr c2)
              else if opt_destroy opts then destroyAll c1
              else Inr c1))"

text \<open>
  \<^verbatim>\<open>didFetch\<close>, the success continuation, for the parsed result \<^verbatim>\<open>rr\<close>, an array:
  \<^verbatim>\<open>if ((fn=this[s]) && enyo.isFunction(fn)) { fn.call(this, rr); }\<close> calls the method the
  strategy names with the result for its only argument. \<^verbatim>\<open>removeAll\<close> and \<^verbatim>\<open>destroyAll\<close>
  take no argument, and \<^verbatim>\<open>fetch\<close> finds none of its options in an array. The success
  callback of the request is code of the application.
\<close>

definition didFetch :: "collection \<Rightarrow> fetch_opts \<Rightarrow> slot list \<Rightarrow> failure + collection" where
  "didFetch c opts res =
     (case opt_strategy opts of
        None \<Rightarrow> Inr c
      | Some AddMethod \<Rightarrow>
          (case add c (Array res) NoIndex of Inl e \<Rightarrow> Inl e | Inr (added, c') \<Rightarrow> Inr c')
      | Some MergeMethod \<Rightarrow> merge c (Array res)
      | Some RemoveMethod \<Rightarrow>
          (case remove_c c (Array res) of Inl e \<Rightarrow> Inl e | Inr (d, c') \<Rightarrow> Inr c')
      | Some ResetMethod \<Rightarrow> reset c (Arr res)
      | Some RemoveAllMethod \<Rightarrow>
          (case removeAll_c c of Inl e \<Rightarrow> Inl e | Inr (d, c') \<Rightarrow> Inr c')
      | Some DestroyAllMethod \<Rightarrow> destroyAll c
      | Some FetchMethod \<Rightarrow>
          fetch c \<lparr>opt_replace = False, opt_destroy = False, opt_strategy = None\<rparr>
      | Some NoMethod \<Rightarrow> Inr c)"

text \<open>A later turn: the first queued request is answered with a result.\<close>

definition settle :: "collection \<Rightarrow> slot list \<Rightarrow> failure + collection" where
  "settle c res =
     (case pending c of
        [] \<Rightarrow> Inr c
      | FetchRecord opts # ts \<Rightarrow> didFetch (c\<lparr>pending := ts\<rparr>) opts res)"

subsection \<open>Sequences of calls\<close>

datatype call =
  Add batch index
| Remove batch
| Reset reset_arg
| Merge batch
| RemoveAll
| At nat
| Filter "filter_method option"
| Fetch fetch_opts
| Settle "slot list"

fun step :: "collection \<Rightarrow> call \<Rightarrow> failure + collection" where
  "step c (Add b i) = (case add c b i of Inl e \<Rightarrow> Inl e | Inr (r, c') \<Rightarrow> Inr c')"
| "step c (Remove b) = (case remove_c c b of Inl e \<Rightarrow> Inl e | Inr (r, c') \<Rightarrow> Inr c')"
| "step c (Reset x) = reset c x"
| "step c (Merge b) = merge c b"
| "step c RemoveAll = (case removeAll_c c of Inl e \<Rightarrow> Inl e | Inr (r, c') \<Rightarrow> Inr c')"
| "step c (At i) = Inr (snd (at c i))"
| "step c (Filter fm) = filterContent c fm"
| "step c (Fetch opts) = fetch c opts"
| "step c (Settle res) = settle c res"

fun run :: "collection \<Rightarrow> call list \<Rightarrow> failure + collection" where
  "run c [] = Inr c"
| "run c (x # xs) = (case step c x of Inl e \<Rightarrow> Inl e | Inr c' \<Rightarrow> run c' xs)"

text \<open>What a call handed to the store: the events of \<open>c'\<close> after those of \<open>c\<close>.\<close>

definition emitted :: "collection \<Rightarrow> collection \<Rightarrow> event list" where
  "emitted c c' = drop (length (events c)) (events c')"

definition length_notes :: "event list \<Rightarrow> event list" where
  "length_notes es = filter (\<lambda>e. e = ObserversNotified ''length'') es"

subsection \<open>States between calls\<close>

text \<open>
  What every call keeps: the cached length is the length of the records, and a filtered
  collection has its unfiltered records in \<^verbatim>\<open>_uRecords\<close>. Between calls the collection is
  neither silenced nor filtering; both flags are set only while a filter method runs.
\<close>

definition coherent :: "collection \<Rightarrow> bool" where
  "coherent c = (length_c c = length (records c) \<and> (filtered c \<longrightarrow> uRecords c \<noteq> None))"

definition idle :: "collection \<Rightarrow> bool" where
  "idle c = (coherent c \<and> \<not> silenced c \<and> \<not> filtering c)"

text \<open>Everything of the collection but its heap.\<close>

definition shape :: "collection \<Rightarrow> slot list \<times> nat \<times> bool \<times> bool \<times> bool \<times> slot list option \<times> event list
    \<times> task list \<times> bool \<times> string \<times> string list option \<times> bool" where
  "shape c = (records c, length_c c, filtered c, filtering c, silenced c, uRecords c, events c,
     pending c, instanceAllRecords c, primaryKey c, mergeKeys c, destroyAll_flag c)"

fun is_reset :: "event \<Rightarrow> bool" where
  "is_reset (ResetEvent xs) = True"
| "is_reset e = False"

definition reset_events :: "event list \<Rightarrow> event list" where
  "reset_events es = filter is_reset es"

fun is_add :: "event \<Rightarrow> bool" where
  "is_add (AddEvent xs) = True"
| "is_add e = False"

definition add_events :: "event list \<Rightarrow> event list" where
  "add_events es = filter is_add es"

text \<open>Whether a slot holds an instance of the model kind.\<close>

definition slot_is_model :: "collection \<Rightarrow> slot \<Rightarrow> bool" where
  "slot_is_model c s = (case s of Ref a \<Rightarrow> is_model (heap c a) | _ \<Rightarrow> False)"

text \<open>
  Every listed merge key has the same value in the incoming object and the candidate.
  The list is read up to its first empty name, where the loop over the keys ends, and it
  must list a key.
\<close>

definition keys_match :: "obj \<Rightarrow> obj \<Rightarrow> string list \<Rightarrow> bool" where
  "keys_match r cand mk =
     (let ks = takeWhile (\<lambda>m. m \<noteq> []) mk
      in ks \<noteq> [] \<and> list_all (\<lambda>m. read_key r m = read_key cand m) ks)"

text \<open>
  The primary key value of an object, and the rule \<^verbatim>\<open>merge\<close> has for an incoming item \<open>a\<close>
  and a candidate \<open>b\<close>: the item's defined primary key value is the candidate's, or the
  model kind has merge keys and they match.
\<close>

abbreviation pk_value :: "collection \<Rightarrow> ref \<Rightarrow> jsval" where
  "pk_value c a \<equiv> read_key (heap c a) (primaryKey c)"

definition matches_by_key :: "collection \<Rightarrow> ref \<Rightarrow> ref \<Rightarrow> bool" where
  "matches_by_key c a b =
     (let v = read_key (heap c a) (primaryKey c)
      in (defined v \<and> v = read_key (heap c b) (primaryKey c)) \<or>
         (case mergeKeys c of
            None \<Rightarrow> False
          | Some mk \<Rightarrow> keys_match (heap c a) (heap c b) mk))"

text \<open>
  An incoming item and a local slot are equal by key: both are objects with the same
  primary key value and the same value for every merge key, and the item has a key to
  match on (a defined primary key, or a first merge key).
\<close>

definition same_keys :: "collection \<Rightarrow> slot \<Rightarrow> slot \<Rightarrow> bool" where
  "same_keys c r s =
     (case (r, s) of
        (Ref a, Ref b) \<Rightarrow>
          read_key (heap c a) (primaryKey c) = read_key (heap c b) (primaryKey c) \<and>
          (case mergeKeys c of
             None \<Rightarrow> defined (read_key (heap c a) (primaryKey c))
           | Some mk \<Rightarrow>
               list_all (\<lambda>m. read_key (heap c a) m = read_key (heap c b) m) mk \<and>
               (defined (read_key (heap c a) (primaryKey c)) \<or> (mk \<noteq> [] \<and> hd mk \<noteq> [])))
      | _ \<Rightarrow> False)"

text \<open>
  The collection after \<^verbatim>\<open>at(i)\<close>, \<^verbatim>\<open>at(i+1)\<close>, ..., \<open>k\<close> calls in all, and the number of
  slots an iteration visits: the truthy slots at the front of the records, up to the
  cached length.
\<close>

fun resolved :: "collection \<Rightarrow> nat \<Rightarrow> nat \<Rightarrow> collection" where
  "resolved c i 0 = c"
| "resolved c i (Suc k) = resolved (snd (at c i)) (Suc i) k"

definition visited :: "collection \<Rightarrow> nat" where
  "visited c = length (takeWhile truthy_slot (take (length_c c) (records c)))"

section \<open>Examples\<close>

text \<open>Raw hashes with the given attributes, and a heap of four of them.\<close>

definition raw :: "(string \<times> jsval) list \<Rightarrow> obj" where
  "raw kvs = \<lparr>is_model = False, attrs = map_of kvs, destroyed = False\<rparr>"

definition heap4 :: "ref \<Rightarrow> obj" where
  "heap4 a = raw [(''id'', Num (int a))]"

definition abcd :: collection where
  "abcd = constructor heap4 4 ''id'' None False [Ref 0, Ref 1, Ref 2, Ref 3]"

text \<open>A collection of a raw hash and a record of the model kind.\<close>

definition mixed_heap :: "ref \<Rightarrow> obj" where
  "mixed_heap a =
     (if a = 1 then \<lparr>is_model = True, attrs = map_of [(''id'', Num 1)], destroyed = False\<rparr>
      else raw [(''id'', Num (int a))])"

definition mixed :: collection where
  "mixed = constructor mixed_heap 2 ''id'' None False [Ref 0, Ref 1]"

text \<open>A collection of three raw hashes, and a filter method that returns \<open>[B]\<close>.\<close>

definition abc :: collection where
  "abc = constructor heap4 3 ''id'' None False [Ref 0, Ref 1, Ref 2]"

definition only_b :: filter_method where
  "only_b c = ([], RetArray [Ref 1])"

text \<open>
  The same collection with a fourth hash \<open>D\<close> at hand, a filter method that calls
  \<^verbatim>\<open>this.reset([D])\<close> and returns \<open>[B]\<close>, one that calls \<^verbatim>\<open>this.reset([D])\<close> and
  \<^verbatim>\<open>this.reset([B])\<close> and returns \<^verbatim>\<open>true\<close>, and one that calls \<^verbatim>\<open>this.reset([B])\<close> and returns
  nothing.
\<close>

definition abc_d :: collection where
  "abc_d = constructor heap4 4 ''id'' None False [Ref 0, Ref 1, Ref 2]"

definition d_then_b :: filter_method where
  "d_then_b c = ([Arr [Ref 3]], RetArray [Ref 1])"

definition d_and_b :: filter_method where
  "d_and_b c = ([Arr [Ref 3], Arr [Ref 1]], RetTrue)"

definition b_inside :: filter_method where
  "b_inside c = ([Arr [Ref 1]], RetFalsy)"

text \<open>
  A heap whose first object is a raw hash marked destroyed, an empty collection over it
  with and without \<^verbatim>\<open>instanceAllRecords\<close>, and a collection of three other hashes.
\<close>

definition doomed_heap :: "ref \<Rightarrow> obj" where
  "doomed_heap a = (if a = 0 then raw [(''destroyed'', Bool True)] else raw [(''id'', Num (int a))])"

definition eager_coll :: collection where
  "eager_coll = constructor doomed_heap 2 ''id'' None True []"

definition lazy_coll :: collection where
  "lazy_coll = constructor doomed_heap 2 ''id'' None False []"

definition doomed3 :: collection where
  "doomed3 = constructor doomed_heap 4 ''id'' None False [Ref 1, Ref 2, Ref 3]"

text \<open>
  Collections of a model kind with the primary key \<open>id\<close> and the merge key \<open>a\<close>, and a
  collection with two local hashes and two incoming hashes of the same \<open>id\<close>.
\<close>

definition keyed_heap :: "ref \<Rightarrow> obj" where
  "keyed_heap a =
     (if a = 0 then raw [(''id'', Num 1), (''a'', Num 3)]
      else if a = 1 then raw [(''id'', Num 1), (''a'', Num 2)]
      else if a = 2 then raw [(''id'', Num 9), (''a'', Num 1)]
      else if a = 3 then raw [(''id'', Num 5), (''a'', Num 2)]
      else if a = 5 then raw [(''id'', Num 5), (''a'', Num 7)]
      else raw [(''a'', Num 5)])"

definition keyed :: collection where
  "keyed = constructor keyed_heap 6 ''id'' (Some [''a'']) False [Ref 0]"

definition keyed2 :: collection where
  "keyed2 = constructor keyed_heap 6 ''id'' (Some [''a'']) False [Ref 2, Ref 3]"

definition twin_heap :: "ref \<Rightarrow> obj" where
  "twin_heap a = raw [(''id'', Num (int (a mod 2))), (''v'', Num (int a))]"

definition twins :: collection where
  "twins = constructor twin_heap 4 ''id'' None False [Ref 0, Ref 1]"

text \<open>
  A collection with a \<^verbatim>\<open>null\<close> slot in the middle, a callback that returns the index
  and one that accepts every record.
\<close>

definition holed :: collection where
  "holed = constructor heap4 4 ''id'' None False [Ref 0, NullV, Ref 2]"

definition index_of :: "collection \<Rightarrow> slot \<Rightarrow> nat \<Rightarrow> nat" where
  "index_of c r i = i"

definition any_record :: "collection \<Rightarrow> slot \<Rightarrow> nat \<Rightarrow> bool" where
  "any_record c r i = True"

section \<open>What every call keeps\<close>

lemma shape_fields:
  "shape c' = shape c \<Longrightarrow>
     records c' = records c \<and> length_c c' = length_c c \<and> filtered c' = filtered c \<and>
     filtering c' = filtering c \<and> silenced c' = silenced c \<and> uRecords c' = uRecords c \<and>
     events c' = events c \<and> pending c' = pending c \<and>
     instanceAllRecords c' = instanceAllRecords c \<and> primaryKey c' = primaryKey c \<and>
     mergeKeys c' = mergeKeys c \<and> destroyAll_flag c' = destroyAll_flag c"
  by (simp add: shape_def)

lemma shape_heap [simp]: "shape (c\<lparr>heap := h\<rparr>) = shape c" "shape (c\<lparr>next_ref := n\<rparr>) = shape c"
  by (simp_all add: shape_def)

lemma shape_idle: "shape c' = shape c \<Longrightarrow> idle c' = idle c"
  by (simp add: shape_def idle_def coherent_def)

lemma notify_fields [simp]:
  "records (notifyObservers c p) = records c"
  "length_c (notifyObservers c p) = length_c c"
  "filtered (notifyObservers c p) = filtered c"
  "filtering (notifyObservers c p) = filtering c"
  "silenced (notifyObservers c p) = silenced c"
  "uRecords (notifyObservers c p) = uRecords c"
  "heap (notifyObservers c p) = heap c"
  "events (notifyObservers c p) = events c @ (if silenced c then [] else [ObserversNotified p])"
  by (simp_all add: notifyObservers_def)

lemma trigger_fields [simp]:
  "records (triggerEvent c e) = records c"
  "length_c (triggerEvent c e) = length_c c"
  "filtered (triggerEvent c e) = filtered c"
  "filtering (triggerEvent c e) = filtering c"
  "silenced (triggerEvent c e) = silenced c"
  "uRecords (triggerEvent c e) = uRecords c"
  "heap (triggerEvent c e) = heap c"
  "events (triggerEvent c e) = events c @ (if silenced c then [] else [e])"
  by (simp_all add: triggerEvent_def)

lemma idle_constructor: "idle (constructor h n pk mk eager data)"
  by (simp add: idle_def coherent_def constructor_def)

lemma reset_coherent: "coherent c \<Longrightarrow> reset c x = Inr c' \<Longrightarrow> coherent c'"
  by (auto simp: reset_def reset_notify_def coherent_def Let_def
      split: if_splits option.splits reset_arg.splits)

lemma reset_flags: "reset c x = Inr c' \<Longrightarrow> silenced c' = silenced c \<and> filtering c' = filtering c"
  by (auto simp: reset_def reset_notify_def Let_def
      split: if_splits option.splits reset_arg.splits)

lemma reset_idle: "idle c \<Longrightarrow> reset c x = Inr c' \<Longrightarrow> idle c'"
  using reset_coherent reset_flags by (simp add: idle_def) blast

lemma reset_unfiltered: "reset c NoArg = Inr c' \<Longrightarrow> \<not> filtered c'"
  by (auto simp: reset_def reset_notify_def Let_def split: if_splits option.splits)

lemma restore_idle: "idle c \<Longrightarrow> restore c = Inr c' \<Longrightarrow> idle c' \<and> \<not> filtered c'"
  using reset_idle reset_unfiltered by (auto simp: restore_def split: if_splits)

lemma restore_ok: "coherent c \<Longrightarrow> \<exists>c'. restore c = Inr c'"
  by (auto simp: restore_def reset_def coherent_def split: option.splits)

lemma createRecord_shape: "createRecord c a = (r, c') \<Longrightarrow> shape c' = shape c"
  by (auto simp: createRecord_def Let_def)

lemma add_loop_shape:
  "add_loop c i j rs = Inr (c', rs', added) \<Longrightarrow> shape c' = shape c \<and> length rs' = length rs"
proof (induction c i j rs arbitrary: c' rs' added rule: add_loop.induct)
  case (2 c i j a rs)
  show ?case
  proof (cases "is_model (heap c a)")
    case True
    with 2(3)[OF _] 2(4) show ?thesis by (auto split: sum.splits)
  next
    case False
    show ?thesis
    proof (cases "instanceAllRecords c")
      case True
      obtain r1 c1 where cr: "createRecord c a = (r1, c1)" by (cases "createRecord c a")
      with 2(4) False True obtain c2 rs2 added2 where
        rec: "add_loop c1 i (Suc j) rs = Inr (c2, rs2, added2)" and
        res: "c' = c2" "rs' = r1 # rs2"
        by (auto split: sum.splits)
      from 2(1)[OF False True cr[symmetric] refl rec] createRecord_shape[OF cr] res
      show ?thesis by simp
    next
      case nE: False
      with 2(2)[OF False nE] 2(4) False show ?thesis by (auto split: sum.splits if_splits)
    qed
  qed
qed simp_all

lemma add_finish_idle:
  "idle c1 \<Longrightarrow> idle (add_finish c1 len local' added)"
  by (simp add: add_finish_def Let_def idle_def coherent_def)

lemma add_finish_unfiltered:
  "filtered (add_finish c1 len local' added) = filtered c1"
  by (simp add: add_finish_def Let_def)

lemma add_cases:
  assumes "add c b i = Inr (added, c')"
  obtains c0 where "restore c = Inr c0" "toArray b = []" "added = []" "c' = c0"
  | c0 c1 rs' where "restore c = Inr c0" "toArray b \<noteq> []"
      "add_loop c0 (normalize_index i (length_c c0)) 0 (toArray b) = Inr (c1, rs', added)"
      "c' = add_finish c1 (length_c c0) (splice_in (records c0) (normalize_index i (length_c c0)) rs') added"
  using assms by (auto simp: add_def Let_def split: sum.splits if_splits)

lemma add_idle:
  assumes "idle c" "add c b i = Inr (added, c')"
  shows "idle c' \<and> \<not> filtered c'"
  using assms(2)
proof (cases rule: add_cases)
  case (1 c0)
  with assms(1) show ?thesis using restore_idle by blast
next
  case (2 c0 c1 rs')
  from restore_idle[OF assms(1) 2(1)] have i0: "idle c0" "\<not> filtered c0" by auto
  from add_loop_shape[OF 2(3)] have sh: "shape c1 = shape c0" by simp
  with i0 have "idle c1" "\<not> filtered c1" using shape_idle[OF sh] shape_fields[OF sh] by simp_all
  with 2(4) show ?thesis by (simp add: add_finish_idle add_finish_unfiltered)
qed

lemma remove_finish_idle:
  "\<not> silenced c1 \<Longrightarrow> \<not> filtering c1 \<Longrightarrow> filtered c1 \<longrightarrow> uRecords c1 \<noteq> None \<Longrightarrow>
   idle (remove_finish c1 l rr d)"
  by (simp add: remove_finish_def Let_def idle_def coherent_def)

lemma remove_finish_filtered: "filtered (remove_finish c1 l rr d) = filtered c1"
  by (simp add: remove_finish_def Let_def)

lemma remove_cases:
  assumes "remove_c c b = Inr (d, c')"
  obtains c0 rr x m where "restore c = Inr c0"
    "remove_scan c0 (toArray b) ([], [], 0, 0) = (rr, d, x, m)"
    "c' = remove_finish (c0\<lparr>records := removal_loop (rev rr) (records c0)\<rparr>) (length_c c0) rr d"
  using assms by (auto simp: remove_c_def Let_def split: sum.splits prod.splits)

lemma remove_idle:
  assumes "idle c" "remove_c c b = Inr (d, c')"
  shows "idle c' \<and> \<not> filtered c'"
  using assms(2)
proof (cases rule: remove_cases)
  case (1 c0 rr x m)
  from restore_idle[OF assms(1) 1(1)] have i0: "idle c0" "\<not> filtered c0" by auto
  then have "\<not> silenced c0" "\<not> filtering c0" by (simp_all add: idle_def)
  with i0(2) have "idle c'" unfolding 1(3) by (intro remove_finish_idle) simp_all
  moreover from i0(2) have "\<not> filtered c'" unfolding 1(3) by (simp add: remove_finish_filtered)
  ultimately show ?thesis by simp
qed

lemma merge_into_shape [simp]: "shape (merge_into c b a) = shape c"
  by (simp add: merge_into_def)

lemma merge_loop_shape: "shape (fst (merge_loop c rs local u)) = shape c"
  by (induction c rs local u rule: merge_loop.induct) (auto simp: Let_def split: option.splits)

lemma merge_idle:
  assumes "idle c" "merge c b = Inr c'"
  shows "idle c'"
proof (cases "batch_truthy b")
  case False
  with assms show ?thesis by (simp add: merge_def)
next
  case True
  obtain c1 u where ml: "merge_loop c (toArray b) (records c) [] = (c1, u)"
    by (cases "merge_loop c (toArray b) (records c) []")
  from merge_loop_shape[of c "toArray b" "records c" "[]"] ml have "shape c1 = shape c" by simp
  with assms(1) have i1: "idle c1" using shape_idle by blast
  show ?thesis
  proof (cases "u = []")
    case True
    with assms(2) \<open>batch_truthy b\<close> ml i1 show ?thesis by (simp add: merge_def)
  next
    case False
    with assms(2) \<open>batch_truthy b\<close> ml obtain added where "add c1 (Array u) NoIndex = Inr (added, c')"
      by (auto simp: merge_def split: sum.splits)
    with i1 show ?thesis using add_idle by blast
  qed
qed

lemma at_idle: "idle c \<Longrightarrow> idle (snd (at c i))"
  by (auto simp: at_def Let_def createRecord_def idle_def coherent_def split: slot.splits)

lemma run_resets_coherent:
  "coherent c \<Longrightarrow> run_resets c xs = Inr c' \<Longrightarrow>
     coherent c' \<and> silenced c' = silenced c \<and> filtering c' = filtering c"
proof (induction xs arbitrary: c)
  case Nil
  then show ?case by simp
next
  case (Cons x xs)
  from Cons.prems(2) obtain c1 where r: "reset c x = Inr c1" and rest: "run_resets c1 xs = Inr c'"
    by (auto split: sum.splits)
  from reset_coherent[OF Cons.prems(1) r] reset_flags[OF r] Cons.IH[OF _ rest]
  show ?case by simp
qed

lemma filter_result_coherent:
  "coherent c \<Longrightarrow> filter_result c r = Inr c' \<Longrightarrow>
     coherent c' \<and> silenced c' = silenced c \<and> filtering c' = filtering c"
  using reset_coherent reset_flags by (auto simp: filter_result_def split: filter_ret.splits)

lemma filter_finish_idle: "coherent c \<Longrightarrow> \<not> silenced c \<Longrightarrow> idle (filter_finish c)"
  by (auto simp: filter_finish_def Let_def idle_def coherent_def has_uRecords_def split: option.splits)

lemma filterContent_cases:
  assumes "filterContent c fm = Inr c'"
  obtains "c' = c"
  | meth calls r c2 c4 where "fm = Some meth" "\<not> filtering c"
      "meth (c\<lparr>filtering := True, silenced := True\<rparr>) = (calls, r)"
      "run_resets (c\<lparr>filtering := True, silenced := True\<rparr>) calls = Inr c2"
      "filter_result (c2\<lparr>silenced := False\<rparr>) r = Inr c4"
      "c' = filter_finish c4"
  using assms
  by (auto simp: filterContent_def Let_def split: if_splits option.splits prod.splits sum.splits)

lemma filterContent_idle:
  assumes "idle c" "filterContent c fm = Inr c'"
  shows "idle c'"
  using assms(2)
proof (cases rule: filterContent_cases)
  case 1
  with assms(1) show ?thesis by simp
next
  case (2 meth calls r c2 c4)
  from assms(1) have "coherent (c\<lparr>filtering := True, silenced := True\<rparr>)"
    by (simp add: idle_def coherent_def)
  from run_resets_coherent[OF this 2(4)] have "coherent c2" by simp
  then have "coherent (c2\<lparr>silenced := False\<rparr>)" by (simp add: coherent_def)
  from filter_result_coherent[OF this 2(5)] have "coherent c4" "\<not> silenced c4" by simp_all
  then show ?thesis unfolding 2(6) by (rule filter_finish_idle)
qed

lemma removeAll_idle: "idle c \<Longrightarrow> removeAll_c c = Inr (d, c') \<Longrightarrow> idle c'"
  using remove_idle by (simp add: removeAll_c_def)

lemma destroy_record_shape [simp]: "shape (destroy_record c a) = shape c"
  by (simp add: destroy_record_def)

lemma destroy_each_shape: "destroy_each c rr ks = Inr c' \<Longrightarrow> shape c' = shape c"
  by (induction c rr ks rule: destroy_each.induct) (auto split: option.splits slot.splits if_splits)

lemma destroyAll_idle:
  assumes "idle c" "destroyAll c = Inr c'"
  shows "idle c'"
proof -
  from assms(2) obtain rr c1 c2 where
    ra: "removeAll_c c = Inr (rr, c1)" and
    de: "destroy_each (c1\<lparr>destroyAll_flag := True\<rparr>) rr (sort (map fst rr)) = Inr c2" and
    res: "c' = c2\<lparr>destroyAll_flag := False\<rparr>"
    by (auto simp: destroyAll_def split: sum.splits)
  from removeAll_idle[OF assms(1) ra] have "idle c1" .
  moreover from shape_fields[OF destroy_each_shape[OF de]]
  have "records c2 = records c1" "length_c c2 = length_c c1" "filtered c2 = filtered c1"
    "filtering c2 = filtering c1" "silenced c2 = silenced c1" "uRecords c2 = uRecords c1"
    by (simp_all add: shape_def)
  ultimately show ?thesis by (simp add: res idle_def coherent_def)
qed

lemma fetch_idle:
  assumes "idle c" "fetch c opts = Inr c'"
  shows "idle c'"
proof -
  from assms(2) obtain c0 where r: "restore c = Inr c0" by (auto simp: fetch_def split: sum.splits)
  define c1 where "c1 = c0\<lparr>pending := pending c0 @ [FetchRecord (with_strategy opts)]\<rparr>"
  from restore_idle[OF assms(1) r] have i1: "idle c1" by (simp add: c1_def idle_def coherent_def)
  have f: "fetch c opts =
      (if opt_replace opts \<and> \<not> opt_destroy opts then
         (case removeAll_c c1 of Inl e \<Rightarrow> Inl e | Inr (rr, c2) \<Rightarrow> Inr c2)
       else if opt_destroy opts then destroyAll c1 else Inr c1)"
    using r by (simp add: fetch_def c1_def Let_def)
  show ?thesis
  proof (cases "opt_replace opts \<and> \<not> opt_destroy opts")
    case True
    with f assms(2) obtain rr where "removeAll_c c1 = Inr (rr, c')"
      by (auto split: sum.splits)
    with i1 show ?thesis using removeAll_idle by blast
  next
    case False
    show ?thesis
    proof (cases "opt_destroy opts")
      case True
      with f assms(2) have "destroyAll c1 = Inr c'" by simp
      with i1 show ?thesis using destroyAll_idle by blast
    next
      case nd: False
      with f False assms(2) i1 show ?thesis by simp
    qed
  qed
qed

lemma didFetch_idle:
  assumes "idle c" "didFetch c opts res = Inr c'"
  shows "idle c'"
proof (cases "opt_strategy opts")
  case None
  with assms show ?thesis by (simp add: didFetch_def)
next
  case (Some s)
  show ?thesis
  proof (cases s)
    case AddMethod
    with Some assms(2) obtain added where "add c (Array res) NoIndex = Inr (added, c')"
      by (auto simp: didFetch_def split: sum.splits)
    from add_idle[OF assms(1) this] show ?thesis by simp
  next
    case MergeMethod
    with Some assms(2) have "merge c (Array res) = Inr c'" by (simp add: didFetch_def)
    from merge_idle[OF assms(1) this] show ?thesis .
  next
    case RemoveMethod
    with Some assms(2) obtain d where "remove_c c (Array res) = Inr (d, c')"
      by (auto simp: didFetch_def split: sum.splits)
    from remove_idle[OF assms(1) this] show ?thesis by simp
  next
    case ResetMethod
    with Some assms(2) have "reset c (Arr res) = Inr c'" by (simp add: didFetch_def)
    from reset_idle[OF assms(1) this] show ?thesis .
  next
    case RemoveAllMethod
    with Some assms(2) obtain d where "removeAll_c c = Inr (d, c')"
      by (auto simp: didFetch_def split: sum.splits)
    from removeAll_idle[OF assms(1) this] show ?thesis .
  next
    case DestroyAllMethod
    with Some assms(2) have "destroyAll c = Inr c'" by (simp add: didFetch_def)
    from destroyAll_idle[OF assms(1) this] show ?thesis .
  next
    case FetchMethod
    with Some assms(2)
    have "fetch c \<lparr>opt_replace = False, opt_destroy = False, opt_strategy = None\<rparr> = Inr c'"
      by (simp add: didFetch_def)
    from fetch_idle[OF assms(1) this] show ?thesis .
  next
    case NoMethod
    with Some assms show ?thesis by (simp add: didFetch_def)
  qed
qed

lemma settle_idle:
  assumes "idle c" "settle c res = Inr c'"
  shows "idle c'"
proof (cases "pending c")
  case Nil
  with assms show ?thesis by (simp add: settle_def)
next
  case (Cons t ts)
  obtain opts where t: "t = FetchRecord opts" by (cases t)
  from assms(1) have i: "idle (c\<lparr>pending := ts\<rparr>)" by (simp add: idle_def coherent_def)
  from assms(2) Cons t have "didFetch (c\<lparr>pending := ts\<rparr>) opts res = Inr c'"
    by (simp add: settle_def)
  from didFetch_idle[OF i this] show ?thesis .
qed

lemma step_idle:
  assumes "idle c" "step c x = Inr c'"
  shows "idle c'"
proof (cases x)
  case (Add b i)
  with assms(2) obtain r where "add c b i = Inr (r, c')" by (auto split: sum.splits)
  from add_idle[OF assms(1) this] show ?thesis by simp
next
  case (Remove b)
  with assms(2) obtain r where "remove_c c b = Inr (r, c')" by (auto split: sum.splits)
  from remove_idle[OF assms(1) this] show ?thesis by simp
next
  case (Reset r)
  with assms(2) have "reset c r = Inr c'" by simp
  from reset_idle[OF assms(1) this] show ?thesis .
next
  case (Merge b)
  with assms(2) have "merge c b = Inr c'" by simp
  from merge_idle[OF assms(1) this] show ?thesis .
next
  case RemoveAll
  with assms(2) obtain r where "removeAll_c c = Inr (r, c')" by (auto split: sum.splits)
  from removeAll_idle[OF assms(1) this] show ?thesis .
next
  case (At i)
  with assms(2) have "c' = snd (at c i)" by simp
  with at_idle[OF assms(1)] show ?thesis by simp
next
  case (Filter fm)
  with assms(2) have "filterContent c fm = Inr c'" by simp
  from filterContent_idle[OF assms(1) this] show ?thesis .
next
  case (Fetch opts)
  with assms(2) have "fetch c opts = Inr c'" by simp
  from fetch_idle[OF assms(1) this] show ?thesis .
next
  case (Settle res)
  with assms(2) have "settle c res = Inr c'" by simp
  from settle_idle[OF assms(1) this] show ?thesis .
qed

lemma run_idle: "idle c \<Longrightarrow> run c xs = Inr c' \<Longrightarrow> idle c'"
proof (induction xs arbitrary: c)
  case Nil
  then show ?case by simp
next
  case (Cons x xs)
  from Cons.prems(2) obtain c1 where s: "step c x = Inr c1" and r: "run c1 xs = Inr c'"
    by (auto split: sum.splits)
  from Cons.IH[OF step_idle[OF Cons.prems(1) s] r] show ?case .
qed

lemma reachable_idle: "run (constructor h n pk mk eager data) xs = Inr c \<Longrightarrow> idle c"
  using run_idle[OF idle_constructor] .

section \<open>reset and the length\<close>

lemma abc_filtered_eval:
  "(case run abc [Filter (Some only_b)] of
      Inl e \<Rightarrow> False
    | Inr c \<Rightarrow>
        filtered c \<and> records c = [Ref 1] \<and> length_c c = 1 \<and> uRecords c = Some [Ref 0, Ref 1, Ref 2] \<and>
        (case add c (Array [Ref 7]) NoIndex of
           Inl e \<Rightarrow> False
         | Inr (added, c') \<Rightarrow> length_c c' = 4 \<and> records c' = [Ref 0, Ref 1, Ref 2, Ref 7]) \<and>
        (case restore c of Inl e \<Rightarrow> False | Inr c0 \<Rightarrow> length_c c0 = 3))"
  by code_simp

lemma emitted_self [simp]: "emitted c c = []"
  by (simp add: emitted_def)

lemma emitted_append: "events c' = events c @ es \<Longrightarrow> emitted c c' = es"
  by (simp add: emitted_def)

lemma reset_filtered_result:
  assumes "filtered c" "uRecords c = Some u" "\<not> silenced c"
  shows "\<exists>c'. reset c NoArg = Inr c' \<and> records c' = u \<and> uRecords c' = None \<and> \<not> filtered c' \<and>
           length_c c' = length u \<and>
           events c' = events c @ (if length (records c) \<noteq> length u then [ObserversNotified ''length''] else [])
                         @ [ResetEvent u]"
  using assms by (simp add: reset_def reset_notify_def Let_def)

text \<open>
  On a filtered collection, in any state that calls of the collection reach from its
  construction, \<^verbatim>\<open>reset()\<close> with no argument returns, makes the records the array held in
  \<^verbatim>\<open>_uRecords\<close>, clears \<^verbatim>\<open>_uRecords\<close>, sets \<^verbatim>\<open>filtered\<close> to false, sets the length to that of
  the restored records, and hands exactly one \<^verbatim>\<open>reset\<close> event to the store.
\<close>

lemma reset_returns_buffer:
  assumes "run (constructor h n pk mk eager data) calls = Inr c" and "filtered c"
  shows "\<exists>u c'. uRecords c = Some u \<and> reset c NoArg = Inr c' \<and> records c' = u \<and>
           uRecords c' = None \<and> \<not> filtered c' \<and> length_c c' = length u \<and>
           reset_events (emitted c c') = [ResetEvent u]"
proof -
  from reachable_idle[OF assms(1)] have i: "idle c" .
  with assms(2) obtain u where u: "uRecords c = Some u" by (auto simp: idle_def coherent_def)
  from i have ns: "\<not> silenced c" by (simp add: idle_def)
  from reset_filtered_result[OF assms(2) u ns] obtain c' where
    r: "reset c NoArg = Inr c'" "records c' = u" "uRecords c' = None" "\<not> filtered c'"
       "length_c c' = length u" and
    e: "events c' = events c @ (if length (records c) \<noteq> length u then [ObserversNotified ''length''] else [])
                         @ [ResetEvent u]"
    by blast
  from emitted_append[OF e] have "reset_events (emitted c c') = [ResetEvent u]"
    by (simp add: reset_events_def)
  with u r show ?thesis by blast
qed

text \<open>
  The scenario of a filter that returns \<open>[B]\<close> on \<open>[A, B, C]\<close>: the collection is filtered
  with length 1, and \<^verbatim>\<open>reset()\<close> brings \<open>[A, B, C]\<close> back.
\<close>

lemma filter_scenario:
  "(case run abc [Filter (Some only_b)] of
      Inl e \<Rightarrow> False
    | Inr c \<Rightarrow>
        filtered c \<and> records c = [Ref 1] \<and> length_c c = 1 \<and>
        (case reset c NoArg of
           Inl e \<Rightarrow> False
         | Inr c' \<Rightarrow>
             records c' = [Ref 0, Ref 1, Ref 2] \<and> length_c c' = 3 \<and> \<not> filtered c' \<and>
             uRecords c' = None \<and>
             reset_events (emitted c c') = [ResetEvent [Ref 0, Ref 1, Ref 2]]))"
  by code_simp

text \<open>
  C4: after any sequence of filter applications, \<^verbatim>\<open>reset()\<close> restores the records the
  collection had before it was filtered. \<^verbatim>\<open>reset\<close> with an array saves the records in
  \<^verbatim>\<open>_uRecords\<close> whenever a filter method is running and \<^verbatim>\<open>filtered\<close> is not set, and
  \<^verbatim>\<open>filtered\<close> is set only when the method has returned. So the second \<^verbatim>\<open>reset\<close> with an
  array of one filter pass saves the array of the first: on \<open>[A, B, C]\<close>, with a filter
  method that calls \<^verbatim>\<open>this.reset([D])\<close> and returns \<open>[B]\<close>, the collection is filtered to
  \<open>[B]\<close> with \<open>[D]\<close> in \<^verbatim>\<open>_uRecords\<close>, and \<^verbatim>\<open>reset()\<close> restores \<open>[D]\<close>: the records it had
  before the filter are lost. The same happens with a filter method that makes both calls
  of \<^verbatim>\<open>reset\<close> itself and returns \<^verbatim>\<open>true\<close>.
\<close>

theorem second_reset_overwrites_snapshot:
  "(case run abc_d [Filter (Some d_then_b)] of
      Inl e \<Rightarrow> False
    | Inr c \<Rightarrow>
        filtered c \<and> records c = [Ref 1] \<and> uRecords c = Some [Ref 3] \<and>
        (case reset c NoArg of
           Inl e \<Rightarrow> False
         | Inr c' \<Rightarrow>
             records c' = [Ref 3] \<and> records c' \<noteq> records abc_d \<and> length_c c' = 1 \<and>
             \<not> filtered c' \<and> uRecords c' = None)) \<and>
   (case run abc_d [Filter (Some d_and_b)] of
      Inl e \<Rightarrow> False
    | Inr c \<Rightarrow>
        filtered c \<and> records c = [Ref 1] \<and> uRecords c = Some [Ref 3] \<and>
        (case reset c NoArg of
           Inl e \<Rightarrow> False
         | Inr c' \<Rightarrow> records c' = [Ref 3] \<and> records c' \<noteq> records abc_d))"
  by code_simp

lemma reset_length:
  assumes "idle c" "reset c x = Inr c'"
  shows "length_c c' = length (records c') \<and>
         length_notes (emitted c c') =
           (if length_c c' \<noteq> length_c c then [ObserversNotified ''length''] else [])"
proof -
  from assms(1) have l: "length_c c = length (records c)" and ns: "\<not> silenced c"
    by (simp_all add: idle_def coherent_def)
  show ?thesis
  proof (cases "x = NoArg \<and> filtered c")
    case True
    with assms(1) obtain u where u: "uRecords c = Some u" by (auto simp: idle_def coherent_def)
    from reset_filtered_result[OF _ u ns] True assms(2) have
      "length_c c' = length u" "records c' = u"
      "events c' = events c @ (if length (records c) \<noteq> length u then [ObserversNotified ''length''] else [])
                         @ [ResetEvent u]"
      by auto
    with l emitted_append[OF this(3)] show ?thesis by (auto simp: length_notes_def)
  next
    case False
    show ?thesis
    proof (cases x)
      case (Arr xs)
      with False assms(2) ns have
        "records c' = xs" "length_c c' = length xs"
        "events c' = events c @ (if length (records c) \<noteq> length xs then [ObserversNotified ''length''] else [])
                         @ [ResetEvent xs]"
        by (auto simp: reset_def reset_notify_def Let_def split: if_splits)
      with l emitted_append[OF this(3)] show ?thesis by (auto simp: length_notes_def)
    next
      case NoArg
      with False assms(2) l show ?thesis by (auto simp: reset_def length_notes_def)
    next
      case Other
      with False assms(2) l show ?thesis by (auto simp: reset_def length_notes_def)
    qed
  qed
qed

lemma restore_length:
  assumes "idle c" "restore c = Inr c0"
  shows "length_notes (emitted c c0) =
           (if length_c c0 \<noteq> length_c c then [ObserversNotified ''length''] else [])"
proof (cases "filtered c")
  case True
  with assms(2) have "reset c NoArg = Inr c0" by (simp add: restore_def)
  from reset_length[OF assms(1) this] show ?thesis by simp
next
  case False
  with assms(2) show ?thesis by (simp add: restore_def length_notes_def)
qed

lemma add_finish_length:
  assumes "\<not> silenced c1"
  shows "length_c (add_finish c1 len xs added) = length (records (add_finish c1 len xs added)) \<and>
         length_c (add_finish c1 len xs added) = length xs \<and>
         events (add_finish c1 len xs added) =
           events c1 @ (if len \<noteq> length xs then [ObserversNotified ''length''] else [])
             @ (if added \<noteq> [] then [AddEvent added] else [])"
  using assms by (simp add: add_finish_def Let_def)

lemma add_length:
  assumes "idle c" "add c b i = Inr (added, c')"
  shows "\<exists>c0. restore c = Inr c0 \<and> length_c c' = length (records c') \<and>
           length_notes (emitted c c0) =
             (if length_c c0 \<noteq> length_c c then [ObserversNotified ''length''] else []) \<and>
           length_notes (emitted c0 c') =
             (if length_c c' \<noteq> length_c c0 then [ObserversNotified ''length''] else [])"
  using assms(2)
proof (cases rule: add_cases)
  case (1 c0)
  from restore_idle[OF assms(1) 1(1)] have "length_c c0 = length (records c0)"
    by (simp add: idle_def coherent_def)
  with 1 restore_length[OF assms(1) 1(1)] show ?thesis by (simp add: length_notes_def)
next
  case (2 c0 c1 rs')
  from restore_idle[OF assms(1) 2(1)] have i0: "idle c0" by simp
  from add_loop_shape[OF 2(3)] have sh: "shape c1 = shape c0" by simp
  from shape_fields[OF sh] i0 have ns: "\<not> silenced c1" and ev: "events c1 = events c0"
    by (simp_all add: idle_def)
  define xs where "xs = splice_in (records c0) (normalize_index i (length_c c0)) rs'"
  from add_finish_length[OF ns, of "length_c c0" xs added] 2(4) ev
  have "length_c c' = length (records c')"
    "length_notes (emitted c0 c') =
       (if length_c c' \<noteq> length_c c0 then [ObserversNotified ''length''] else [])"
    by (auto simp: emitted_def length_notes_def xs_def)
  with 2(1) restore_length[OF assms(1) 2(1)] show ?thesis by simp
qed

lemma remove_finish_length:
  assumes "\<not> silenced c1"
  shows "length_c (remove_finish c1 l rr d) = length (records (remove_finish c1 l rr d)) \<and>
         length_c (remove_finish c1 l rr d) = length (records c1) \<and>
         events (remove_finish c1 l rr d) =
           events c1 @ (if l \<noteq> length (records c1) then [ObserversNotified ''length''] else [])
             @ (if rr \<noteq> [] then [RemoveEvent d] else [])"
  using assms by (simp add: remove_finish_def Let_def)

lemma remove_length:
  assumes "idle c" "remove_c c b = Inr (d, c')"
  shows "\<exists>c0. restore c = Inr c0 \<and> length_c c' = length (records c') \<and>
           length_notes (emitted c c0) =
             (if length_c c0 \<noteq> length_c c then [ObserversNotified ''length''] else []) \<and>
           length_notes (emitted c0 c') =
             (if length_c c' \<noteq> length_c c0 then [ObserversNotified ''length''] else [])"
  using assms(2)
proof (cases rule: remove_cases)
  case (1 c0 rr x m)
  from restore_idle[OF assms(1) 1(1)] have i0: "idle c0" by simp
  then have ns: "\<not> silenced (c0\<lparr>records := removal_loop (rev rr) (records c0)\<rparr>)"
    by (simp add: idle_def)
  from remove_finish_length[OF ns, of "length_c c0" rr d] 1(3)
  have "length_c c' = length (records c')"
    "length_notes (emitted c0 c') =
       (if length_c c' \<noteq> length_c c0 then [ObserversNotified ''length''] else [])"
    by (auto simp: emitted_def length_notes_def)
  with 1(1) restore_length[OF assms(1) 1(1)] show ?thesis by simp
qed

text \<open>
  C5: a notification of the length fires if and only if the length changed during the
  call. Two calls where it does not: on \<open>[A, B, C]\<close> filtered to \<open>[B]\<close>, \<^verbatim>\<open>remove([A, C])\<close>
  first restores the three records and then removes two, so the length is 1 before and
  after the call and the observers are notified twice; and a \<^verbatim>\<open>reset([B])\<close> that a filter
  method makes changes the length from 3 to 1 while the collection is silenced, so nothing
  is notified.
\<close>

theorem remove_on_filtered_notifies_twice:
  "(case run abc [Filter (Some only_b)] of
      Inl e \<Rightarrow> False
    | Inr c \<Rightarrow>
        length_c c = 1 \<and>
        (case remove_c c (Array [Ref 0, Ref 2]) of
           Inl e \<Rightarrow> False
         | Inr (d, c') \<Rightarrow>
             length_c c' = 1 \<and> records c' = [Ref 1] \<and>
             length_notes (emitted c c') = [ObserversNotified ''length'', ObserversNotified ''length''])) \<and>
   length_c abc = 3 \<and>
   (case run abc [Filter (Some b_inside)] of
      Inl e \<Rightarrow> False
    | Inr c \<Rightarrow> length_c c = 1 \<and> records c = [Ref 1] \<and> length_notes (emitted abc c) = [])"
  by code_simp

text \<open>
  C5, as amended: in any state that calls of the collection reach from its construction
  (so between calls, not inside a running filter method, where the collection is
  silenced), after \<^verbatim>\<open>add\<close>, \<^verbatim>\<open>remove\<close> and \<^verbatim>\<open>reset\<close> the cached length is the length of the
  records, and the observers of \<^verbatim>\<open>length\<close> are notified once if the length changed and not
  at all if it did not, step by step: \<^verbatim>\<open>add\<close> and \<^verbatim>\<open>remove\<close> on a filtered collection first
  restore the unfiltered records (\<open>c0\<close> is the state after that; it is \<open>c\<close> itself when \<open>c\<close>
  is not filtered), and this holds for that step and for the step from \<open>c0\<close> to the
  result. \<^verbatim>\<open>reset\<close> is one step.
\<close>

theorem length_follows_records:
  assumes "run (constructor h n pk mk eager data) calls = Inr c"
  shows "(\<forall>b i added c'. add c b i = Inr (added, c') \<longrightarrow>
            (\<exists>c0. restore c = Inr c0 \<and> (\<not> filtered c \<longrightarrow> c0 = c) \<and>
               length_c c' = length (records c') \<and>
               length_notes (emitted c c0) =
                 (if length_c c0 \<noteq> length_c c then [ObserversNotified ''length''] else []) \<and>
               length_notes (emitted c0 c') =
                 (if length_c c' \<noteq> length_c c0 then [ObserversNotified ''length''] else []))) \<and>
         (\<forall>b d c'. remove_c c b = Inr (d, c') \<longrightarrow>
            (\<exists>c0. restore c = Inr c0 \<and> (\<not> filtered c \<longrightarrow> c0 = c) \<and>
               length_c c' = length (records c') \<and>
               length_notes (emitted c c0) =
                 (if length_c c0 \<noteq> length_c c then [ObserversNotified ''length''] else []) \<and>
               length_notes (emitted c0 c') =
                 (if length_c c' \<noteq> length_c c0 then [ObserversNotified ''length''] else []))) \<and>
         (\<forall>x c'. reset c x = Inr c' \<longrightarrow>
            length_c c' = length (records c') \<and>
            length_notes (emitted c c') =
              (if length_c c' \<noteq> length_c c then [ObserversNotified ''length''] else []))"
proof -
  from reachable_idle[OF assms] have i: "idle c" .
  have un: "\<And>c0. restore c = Inr c0 \<Longrightarrow> \<not> filtered c \<longrightarrow> c0 = c"
    by (auto simp: restore_def)
  show ?thesis
  proof (intro conjI allI impI)
    fix b i added c' assume "add c b i = Inr (added, c')"
    from add_length[OF i this] un
    show "\<exists>c0. restore c = Inr c0 \<and> (\<not> filtered c \<longrightarrow> c0 = c) \<and>
               length_c c' = length (records c') \<and>
               length_notes (emitted c c0) =
                 (if length_c c0 \<noteq> length_c c then [ObserversNotified ''length''] else []) \<and>
               length_notes (emitted c0 c') =
                 (if length_c c' \<noteq> length_c c0 then [ObserversNotified ''length''] else [])"
      by blast
  next
    fix b d c' assume "remove_c c b = Inr (d, c')"
    from remove_length[OF i this] un
    show "\<exists>c0. restore c = Inr c0 \<and> (\<not> filtered c \<longrightarrow> c0 = c) \<and>
               length_c c' = length (records c') \<and>
               length_notes (emitted c c0) =
                 (if length_c c0 \<noteq> length_c c then [ObserversNotified ''length''] else []) \<and>
               length_notes (emitted c0 c') =
                 (if length_c c' \<noteq> length_c c0 then [ObserversNotified ''length''] else [])"
      by blast
  next
    fix x c' assume "reset c x = Inr c'"
    from reset_length[OF i this] show "length_c c' = length (records c')"
      "length_notes (emitted c c') =
              (if length_c c' \<noteq> length_c c then [ObserversNotified ''length''] else [])"
      by simp_all
  qed
qed

lemma abc_filtered_steps:
  "(case run abc [Filter (Some only_b)] of
      Inl e \<Rightarrow> False
    | Inr c \<Rightarrow>
        (case remove_c c (Array [Ref 0, Ref 2]) of
           Inl e \<Rightarrow> False
         | Inr (d, c') \<Rightarrow> length_c c' = 1 \<and> records c' = [Ref 1]) \<and>
        (case reset c NoArg of Inl e \<Rightarrow> False | Inr c' \<Rightarrow> length_c c' = 3) \<and>
        (case reset c (Arr [Ref 2]) of Inl e \<Rightarrow> False | Inr c' \<Rightarrow> length_c c' = 1))"
  by code_simp

theorem length_follows_records_witness:
  "\<exists>c c0. run (constructor heap4 3 ''id'' None False [Ref 0, Ref 1, Ref 2]) [Filter (Some only_b)] = Inr c \<and>
      length_c c = 1 \<and> restore c = Inr c0 \<and> length_c c0 = 3 \<and>
      length_notes (emitted c c0) = [ObserversNotified ''length''] \<and>
      (\<exists>added c'. add c (Array [Ref 7]) NoIndex = Inr (added, c') \<and>
         length_c c' = 4 \<and> length (records c') = 4 \<and>
         length_notes (emitted c0 c') = [ObserversNotified ''length'']) \<and>
      (\<exists>d c'. remove_c c (Array [Ref 0, Ref 2]) = Inr (d, c') \<and>
         length_c c' = 1 \<and> length (records c') = 1 \<and>
         length_notes (emitted c0 c') = [ObserversNotified ''length'']) \<and>
      (\<exists>c'. reset c NoArg = Inr c' \<and> length_c c' = 3 \<and> length (records c') = 3 \<and>
         length_notes (emitted c c') = [ObserversNotified ''length'']) \<and>
      (\<exists>c'. reset c (Arr [Ref 2]) = Inr c' \<and> length_c c' = 1 \<and> length (records c') = 1 \<and>
         length_notes (emitted c c') = [])"
proof -
  from abc_filtered_eval obtain c added c1 c0 where
    r: "run (constructor heap4 3 ''id'' None False [Ref 0, Ref 1, Ref 2]) [Filter (Some only_b)] = Inr c" and
    f: "length_c c = 1" and
    a: "add c (Array [Ref 7]) NoIndex = Inr (added, c1)" "length_c c1 = 4" and
    r0: "restore c = Inr c0" "length_c c0 = 3"
    by (auto simp: abc_def split: sum.splits)
  from abc_filtered_steps r obtain d c2 c3 c4 where
    rm: "remove_c c (Array [Ref 0, Ref 2]) = Inr (d, c2)" "length_c c2 = 1" and
    rs: "reset c NoArg = Inr c3" "length_c c3 = 3" and
    ra: "reset c (Arr [Ref 2]) = Inr c4" "length_c c4 = 1"
    by (auto simp: abc_def split: sum.splits)
  note t = length_follows_records[OF r]
  from t a(1) r0(1) have ta:
    "length_c c1 = length (records c1)"
    "length_notes (emitted c c0) = (if length_c c0 \<noteq> length_c c then [ObserversNotified ''length''] else [])"
    "length_notes (emitted c0 c1) = (if length_c c1 \<noteq> length_c c0 then [ObserversNotified ''length''] else [])"
    by fastforce+
  from t rm(1) r0(1) have tr:
    "length_c c2 = length (records c2)"
    "length_notes (emitted c0 c2) = (if length_c c2 \<noteq> length_c c0 then [ObserversNotified ''length''] else [])"
    by fastforce+
  from t rs(1) have ts:
    "length_c c3 = length (records c3)"
    "length_notes (emitted c c3) = (if length_c c3 \<noteq> length_c c then [ObserversNotified ''length''] else [])"
    by fastforce+
  from t ra(1) have tx:
    "length_c c4 = length (records c4)"
    "length_notes (emitted c c4) = (if length_c c4 \<noteq> length_c c then [ObserversNotified ''length''] else [])"
    by fastforce+
  from a ta f r0 have 1: "\<exists>added c'. add c (Array [Ref 7]) NoIndex = Inr (added, c') \<and>
         length_c c' = 4 \<and> length (records c') = 4 \<and>
         length_notes (emitted c0 c') = [ObserversNotified ''length'']"
    by (intro exI[of _ added] exI[of _ c1]) simp
  from rm tr f r0 have 2: "\<exists>d c'. remove_c c (Array [Ref 0, Ref 2]) = Inr (d, c') \<and>
         length_c c' = 1 \<and> length (records c') = 1 \<and>
         length_notes (emitted c0 c') = [ObserversNotified ''length'']"
    by (intro exI[of _ d] exI[of _ c2]) simp
  from rs ts f have 3: "\<exists>c'. reset c NoArg = Inr c' \<and> length_c c' = 3 \<and> length (records c') = 3 \<and>
         length_notes (emitted c c') = [ObserversNotified ''length'']"
    by (intro exI[of _ c3]) simp
  from ra tx f have 4: "\<exists>c'. reset c (Arr [Ref 2]) = Inr c' \<and> length_c c' = 1 \<and> length (records c') = 1 \<and>
         length_notes (emitted c c') = []"
    by (intro exI[of _ c4]) simp
  from ta(2) f r0 have 0: "length_notes (emitted c c0) = [ObserversNotified ''length'']" by simp
  from r f r0 0 1 2 3 4 show ?thesis by blast
qed

text \<open>
  The array in \<^verbatim>\<open>_uRecords\<close> is the one the collection had before it was filtered, for
  filter methods that return the array to reset to, with or without a call of \<^verbatim>\<open>reset()\<close>
  before to have all the records at hand: applied one after the other to an unfiltered
  collection with records, they keep that array, and \<^verbatim>\<open>reset()\<close> brings it back.
\<close>

lemma returned_array_step:
  assumes "idle c" "if filtered c then uRecords c = Some xs else records c = xs" "xs \<noteq> []"
    and "meth (c\<lparr>filtering := True, silenced := True\<rparr>) = (calls, RetArray ys)"
    and "calls = [] \<or> calls = [NoArg]"
  shows "\<exists>c'. filterContent c (Some meth) = Inr c' \<and> idle c' \<and> filtered c' \<and>
           uRecords c' = Some xs \<and> records c' = ys"
proof -
  from assms(1) have f: "\<not> filtering c" "\<not> silenced c" "length_c c = length (records c)"
    by (simp_all add: idle_def coherent_def)
  from assms(2,3) f(3) have g: "0 < length_c c \<or> has_uRecords c"
    by (auto simp: has_uRecords_def split: if_splits)
  define c1 where "c1 = c\<lparr>filtering := True, silenced := True\<rparr>"
  have "\<exists>c2. run_resets c1 calls = Inr c2 \<and> filtering c2 \<and> (filtered c2 \<longrightarrow> uRecords c2 = Some xs) \<and>
          (\<not> filtered c2 \<longrightarrow> records c2 = xs)"
    using assms(2,5)
    by (auto simp: c1_def reset_def reset_notify_def notifyObservers_def triggerEvent_def Let_def)
  then obtain c2 where c2: "run_resets c1 calls = Inr c2" "filtering c2"
    "filtered c2 \<longrightarrow> uRecords c2 = Some xs" "\<not> filtered c2 \<longrightarrow> records c2 = xs" by blast
  define c3 where "c3 = c2\<lparr>silenced := False\<rparr>"
  have "\<exists>c4. reset c3 (Arr ys) = Inr c4 \<and> uRecords c4 = Some xs \<and> records c4 = ys"
    using c2(2,3,4)
    by (auto simp: c3_def reset_def reset_notify_def notifyObservers_def triggerEvent_def Let_def)
  then obtain c4 where c4: "reset c3 (Arr ys) = Inr c4" "uRecords c4 = Some xs" "records c4 = ys"
    by blast
  have fc: "filterContent c (Some meth) = Inr (filter_finish c4)"
    using f g assms(4) c2(1) c4(1)
    by (simp add: filterContent_def Let_def filter_result_def c1_def c3_def)
  from c4 assms(3) have "filtered (filter_finish c4)" "uRecords (filter_finish c4) = Some xs"
    "records (filter_finish c4) = ys"
    by (simp_all add: filter_finish_def Let_def has_uRecords_def)
  moreover from filterContent_idle[OF assms(1) fc] have "idle (filter_finish c4)" .
  ultimately show ?thesis using fc by simp
qed

lemma returned_arrays_keep_snapshot:
  assumes "idle c" "if filtered c then uRecords c = Some xs else records c = xs" "xs \<noteq> []"
    and "\<forall>meth\<in>set ms. \<forall>s. \<exists>ys. meth s = ([], RetArray ys) \<or> meth s = ([NoArg], RetArray ys)"
    and "ms \<noteq> []"
  shows "\<exists>c'. run c (map (\<lambda>meth. Filter (Some meth)) ms) = Inr c' \<and> idle c' \<and> filtered c' \<and>
           uRecords c' = Some xs"
  using assms
proof (induction ms arbitrary: c)
  case Nil
  then show ?case by simp
next
  case (Cons meth ms)
  from Cons.prems(4) have "\<forall>s. \<exists>ys. meth s = ([], RetArray ys) \<or> meth s = ([NoArg], RetArray ys)"
    by simp
  then have "\<exists>ys. meth (c\<lparr>filtering := True, silenced := True\<rparr>) = ([], RetArray ys) \<or>
      meth (c\<lparr>filtering := True, silenced := True\<rparr>) = ([NoArg], RetArray ys)"
    by (rule spec)
  then obtain calls ys where ys: "meth (c\<lparr>filtering := True, silenced := True\<rparr>) = (calls, RetArray ys)"
    "calls = [] \<or> calls = [NoArg]" by blast
  from returned_array_step[of c xs meth calls ys, OF Cons.prems(1,2,3) ys] obtain c1 where
    c1: "filterContent c (Some meth) = Inr c1" "idle c1" "filtered c1" "uRecords c1 = Some xs"
    by blast
  show ?case
  proof (cases "ms = []")
    case True
    with c1 show ?thesis by simp
  next
    case False
    from c1 have "if filtered c1 then uRecords c1 = Some xs else records c1 = xs" by simp
    from Cons.IH[OF c1(2) this Cons.prems(3) _ False] Cons.prems(4) obtain c' where
      "run c1 (map (\<lambda>meth. Filter (Some meth)) ms) = Inr c'" "idle c'" "filtered c'"
      "uRecords c' = Some xs" by auto
    with c1(1) show ?thesis by simp
  qed
qed

lemma reset_after_returned_arrays:
  assumes "idle c" "\<not> filtered c" "records c \<noteq> []"
    and "\<forall>meth\<in>set ms. \<forall>s. \<exists>ys. meth s = ([], RetArray ys) \<or> meth s = ([NoArg], RetArray ys)"
    and "ms \<noteq> []"
  shows "\<exists>c1 c'. run c (map (\<lambda>meth. Filter (Some meth)) ms) = Inr c1 \<and> filtered c1 \<and>
           reset c1 NoArg = Inr c' \<and> records c' = records c \<and> \<not> filtered c'"
proof -
  from assms(2) have "if filtered c then uRecords c = Some (records c) else records c = records c"
    by simp
  from returned_arrays_keep_snapshot[OF assms(1) this assms(3,4,5)] obtain c1 where
    c1: "run c (map (\<lambda>meth. Filter (Some meth)) ms) = Inr c1" "idle c1" "filtered c1"
        "uRecords c1 = Some (records c)" by blast
  from c1(2) have "\<not> silenced c1" by (simp add: idle_def)
  from reset_filtered_result[OF c1(3,4) this] c1(1,3) show ?thesis by blast
qed

section \<open>remove\<close>

text \<open>
  The scenario of the specification: on the collection \<open>[A, B, C, D]\<close>, \<^verbatim>\<open>remove([B, D])\<close>
  builds the index list \<open>[1, 3]\<close>, returns \<open>{1: B, 3: D}\<close> and leaves \<open>[A, C]\<close>.
\<close>

lemma remove_scenario:
  "remove_order abcd (Array [Ref 1, Ref 3]) = [1, 3] \<and>
   (case remove_c abcd (Array [Ref 1, Ref 3]) of
      Inl e \<Rightarrow> False
    | Inr (d, c) \<Rightarrow> d = [(1, Ref 1), (3, Ref 3)] \<and> records c = [Ref 0, Ref 2] \<and> length_c c = 2)"
  by code_simp

text \<open>
  C1: for every batch passed to \<^verbatim>\<open>remove\<close>, the indices to remove form an ascending
  list and the length afterwards is the length before minus the number of records found.
  On \<open>[A, B, C, D]\<close> the batch \<open>[D, B, C]\<close> is a batch of three records of the collection,
  found at 3, 1 and 2. The positional insertion \<^verbatim>\<open>rr.splice(k-1, 0, i)\<close> puts 2 before 1:
  the index list is \<open>[2, 1, 3]\<close>, the last removal, at index 2, finds nothing there, and
  the collection keeps \<open>[A, C]\<close> with length 2 while the returned hash lists three records.
\<close>

theorem remove_misplaced_index:
  "remove_order abcd (Array [Ref 3, Ref 1, Ref 2]) = [2, 1, 3] \<and>
   (case remove_c abcd (Array [Ref 3, Ref 1, Ref 2]) of
      Inl e \<Rightarrow> False
    | Inr (d, c) \<Rightarrow>
        d = [(3, Ref 3), (1, Ref 1), (2, Ref 2)] \<and> records c = [Ref 0, Ref 2] \<and> length_c c = 2)"
  by code_simp

section \<open>add\<close>

lemma reset_heap: "reset c x = Inr c' \<Longrightarrow>
    heap c' = heap c \<and> instanceAllRecords c' = instanceAllRecords c \<and> next_ref c' = next_ref c"
  by (auto simp: reset_def reset_notify_def notifyObservers_def triggerEvent_def Let_def
      split: if_splits option.splits reset_arg.splits)

lemma restore_heap: "restore c = Inr c' \<Longrightarrow>
    heap c' = heap c \<and> instanceAllRecords c' = instanceAllRecords c \<and> next_ref c' = next_ref c"
  using reset_heap[of c NoArg c'] by (auto simp: restore_def split: if_splits)

lemma add_loop_raises:
  assumes "\<not> instanceAllRecords c" "\<forall>s\<in>set pre. truthy_slot s"
    "\<not> is_model (heap c a)" "destroyed_prop (heap c a)"
  shows "add_loop c i j (pre @ Ref a # post) = Inl (InvalidRecordState, c)"
  using assms(2)
proof (induction pre arbitrary: j)
  case Nil
  with assms show ?case by simp
next
  case (Cons s pre)
  then obtain a' where s: "s = Ref a'" by (cases s) auto
  from Cons have "add_loop c i (Suc j) (pre @ Ref a # post) = Inl (InvalidRecordState, c)" by simp
  with s assms(1) show ?case by simp
qed

text \<open>
  The index \<^verbatim>\<open>add\<close> inserts at: a positive index is clamped to the length; no index,
  \<^verbatim>\<open>null\<close>, 0 and a negative index all give the length.
\<close>

lemma normalize_index_values:
  "normalize_index NoIndex len = len"
  "normalize_index NullIndex len = len"
  "n \<le> 0 \<Longrightarrow> normalize_index (Index n) len = len"
  "0 < n \<Longrightarrow> normalize_index (Index n) len = min len (nat n)"
  by (auto simp: normalize_index_def Let_def min_def max_def)

lemma normalize_index_le: "normalize_index i len \<le> len"
  by (cases i) (auto simp: normalize_index_def Let_def)

lemma createRecord_heap:
  "createRecord c a = (r, c') \<Longrightarrow>
     next_ref c' = Suc (next_ref c) \<and> (\<forall>x. x \<noteq> next_ref c \<longrightarrow> heap c' x = heap c x)"
  by (auto simp: createRecord_def Let_def)

lemma upt_comprehension_Suc:
  "concat (map f [0..<Suc m]) = f 0 @ concat (map (\<lambda>k. f (Suc k)) [0..<m])"
proof -
  have "[0..<Suc m] = 0 # map Suc [0..<m]" by (simp add: upt_conv_Cons map_Suc_upt del: upt_Suc)
  then show ?thesis by (simp add: comp_def del: upt_Suc)
qed

lemma add_loop_added:
  assumes "add_loop c i j rs = Inr (c', rs', added)"
    and "\<forall>a. Ref a \<in> set rs \<longrightarrow> is_model (heap c a) = M a"
    and "instanceAllRecords c \<longrightarrow> (\<forall>a. Ref a \<in> set rs \<longrightarrow> a < next_ref c)"
  shows "added = concat (map (\<lambda>k. if (case rs ! k of Ref a \<Rightarrow> M a | _ \<Rightarrow> False) then [] else [k + j + i])
                   [0..<length (takeWhile truthy_slot rs)])"
  using assms
proof (induction c i j rs arbitrary: c' rs' added rule: add_loop.induct)
  case (1 c i j)
  then show ?case by simp
next
  case (2 c i j a rs)
  let ?f = "\<lambda>rs j k. if (case rs ! k of Ref a \<Rightarrow> M a | _ \<Rightarrow> False) then [] else [k + j + i]"
  have unfold: "concat (map (?f (Ref a # rs) j) [0..<length (takeWhile truthy_slot (Ref a # rs))])
      = (if M a then [] else [j + i]) @ concat (map (?f rs (Suc j)) [0..<length (takeWhile truthy_slot rs)])"
    by (simp add: upt_comprehension_Suc del: upt_Suc cong: if_cong)
  from "2.prems"(2) have Ma: "is_model (heap c a) = M a" by simp
  show ?case
  proof (cases "is_model (heap c a)")
    case True
    with "2.prems"(1) obtain added1 rs1 where
      rec: "add_loop c i (Suc j) rs = Inr (c', rs1, added1)" and res: "added = added1"
      by (auto split: sum.splits)
    from "2.IH"(3)[OF _ rec] True "2.prems"(2,3)
    have "added1 = concat (map (?f rs (Suc j)) [0..<length (takeWhile truthy_slot rs)])" by simp
    with res True Ma unfold show ?thesis by simp
  next
    case False
    show ?thesis
    proof (cases "instanceAllRecords c")
      case True
      obtain r1 c1 where cr: "createRecord c a = (r1, c1)" by (cases "createRecord c a")
      with "2.prems"(1) False True obtain rs1 added1 where
        rec: "add_loop c1 i (Suc j) rs = Inr (c', rs1, added1)" and res: "added = (j + i) # added1"
        by (auto split: sum.splits)
      from createRecord_heap[OF cr] "2.prems"(2,3) True have
        h: "\<forall>a. Ref a \<in> set rs \<longrightarrow> is_model (heap c1 a) = M a" and
        n: "instanceAllRecords c1 \<longrightarrow> (\<forall>a. Ref a \<in> set rs \<longrightarrow> a < next_ref c1)"
        by (auto simp: less_Suc_eq)
      from "2.IH"(1)[OF False True cr[symmetric] refl rec h n]
      have "added1 = concat (map (?f rs (Suc j)) [0..<length (takeWhile truthy_slot rs)])" .
      with res False Ma unfold show ?thesis by simp
    next
      case nE: False
      with "2.prems"(1) False obtain rs1 added1 where
        rec: "add_loop c i (Suc j) rs = Inr (c', rs1, added1)" and res: "added = (j + i) # added1"
        by (auto split: sum.splits if_splits)
      from "2.prems"(1) False nE have nd: "\<not> destroyed_prop (heap c a)" by (auto split: if_splits)
      from "2.IH"(2)[OF False nE nd rec] "2.prems"(2,3)
      have "added1 = concat (map (?f rs (Suc j)) [0..<length (takeWhile truthy_slot rs)])" by simp
      with res False Ma unfold show ?thesis by simp
    qed
  qed
qed auto

lemma add_loop_lazy:
  "add_loop c i j rs = Inr (c', rs', added) \<Longrightarrow> \<not> instanceAllRecords c \<Longrightarrow> rs' = rs"
  by (induction c i j rs arbitrary: c' rs' added rule: add_loop.induct)
     (auto split: sum.splits if_splits)

lemma concat_if_filter:
  "concat (map (\<lambda>k. if P k then [] else [f k]) xs) = map f (filter (\<lambda>k. \<not> P k) xs)"
  by (induction xs) auto

lemma restore_events:
  assumes "idle c" "restore c = Inr c0"
  shows "\<exists>es. events c0 = events c @ es \<and> add_events es = []"
proof (cases "filtered c")
  case True
  with assms(1) obtain u where u: "uRecords c = Some u" by (auto simp: idle_def coherent_def)
  from assms(1) have "\<not> silenced c" by (simp add: idle_def)
  from reset_filtered_result[OF True u this] assms(2) True
  have "events c0 = events c @ (if length (records c) \<noteq> length u then [ObserversNotified ''length''] else [])
                         @ [ResetEvent u]"
    by (auto simp: restore_def)
  then show ?thesis by (auto simp: add_events_def)
next
  case False
  with assms(2) show ?thesis by (simp add: restore_def add_events_def)
qed

text \<open>
  C2: \<^verbatim>\<open>add\<close> with index 0 inserts the batch at the front. In the normalization of the
  index the clamped value 0 is falsy, so \<^verbatim>\<open>|| len\<close> replaces it by the length: on
  \<open>[A, B, C, D]\<close>, \<^verbatim>\<open>add([X], 0)\<close> appends \<open>X\<close> and reports index 4.
\<close>

theorem add_at_zero_appends:
  "normalize_index (Index 0) 4 = 4 \<and>
   (case add abcd (Array [Ref 7]) (Index 0) of
      Inl e \<Rightarrow> False
    | Inr (added, c) \<Rightarrow> added = [4] \<and> records c = [Ref 0, Ref 1, Ref 2, Ref 3, Ref 7])"
  by code_simp

text \<open>
  C6: every \<^verbatim>\<open>add\<close> of a raw item marked destroyed raises the InvalidRecordState error.
  Two calls where it does not: with \<^verbatim>\<open>instanceAllRecords\<close> set the destroyed hash is
  materialized and inserted, and after a falsy entry of the batch the loop that would
  raise has already ended, so the destroyed hash is inserted as it is.
\<close>

theorem add_destroyed_raw_accepted:
  "\<not> is_model (heap eager_coll 0) \<and> destroyed_prop (heap eager_coll 0) \<and>
   (case add eager_coll (Single (Ref 0)) NoIndex of
      Inl e \<Rightarrow> False
    | Inr (added, c') \<Rightarrow> added = [0] \<and> records c' = [Ref 2]) \<and>
   \<not> is_model (heap lazy_coll 0) \<and> destroyed_prop (heap lazy_coll 0) \<and>
   (case add lazy_coll (Array [NullV, Ref 0]) NoIndex of
      Inl e \<Rightarrow> False
    | Inr (added, c') \<Rightarrow> added = [] \<and> records c' = [NullV, Ref 0])"
  by code_simp

text \<open>
  C6, as amended: in any state that calls of the collection reach from its construction,
  when \<^verbatim>\<open>instanceAllRecords\<close> is not set and the batch holds a raw item marked destroyed
  with no falsy entry before it, \<^verbatim>\<open>add\<close> raises the InvalidRecordState error, and the
  error is fatal to the call: no index list is returned, and the collection is left as
  \<^verbatim>\<open>add\<close> found it, but for the restoring of the unfiltered records that a filtered one
  gets first (\<open>c0\<close> is the state after that; it is \<open>c\<close> itself when \<open>c\<close> is not filtered).
  Nothing of the batch is inserted, the length is not set and no \<^verbatim>\<open>add\<close> event is handed
  to the store: the error comes with the state \<open>c0\<close>.
\<close>

theorem add_destroyed_raw_raises:
  assumes "run (constructor h n pk mk eager data) calls = Inr c"
    and "\<not> instanceAllRecords c"
    and "toArray b = pre @ Ref a # post"
    and "\<forall>s\<in>set pre. truthy_slot s"
    and "\<not> is_model (heap c a)" and "destroyed_prop (heap c a)"
  shows "\<exists>c0. restore c = Inr c0 \<and> add c b i = Inl (InvalidRecordState, c0) \<and>
           (\<not> filtered c \<longrightarrow> c0 = c) \<and> add_events (emitted c c0) = []"
proof -
  from reachable_idle[OF assms(1)] have ic: "idle c" .
  then have "coherent c" by (simp add: idle_def)
  from restore_ok[OF this] obtain c0 where r: "restore c = Inr c0" by blast
  from restore_events[OF ic r] have ae: "add_events (emitted c c0) = []"
    by (auto simp: emitted_def)
  from restore_heap[OF r] assms have
    "\<not> instanceAllRecords c0" "\<not> is_model (heap c0 a)" "destroyed_prop (heap c0 a)" by simp_all
  from add_loop_raises[OF this(1) assms(4) this(2,3)] r assms(3)
  have "add c b i = Inl (InvalidRecordState, c0)"
    by (simp add: add_def Let_def)
  moreover from r have "\<not> filtered c \<longrightarrow> c0 = c" by (auto simp: restore_def)
  ultimately show ?thesis using r ae by blast
qed

lemma doomed_filtered_eval:
  "(case run doomed3 [Filter (Some only_b)] of
      Inl e \<Rightarrow> False
    | Inr c \<Rightarrow>
        filtered c \<and> records c = [Ref 1] \<and> length_c c = 1 \<and> \<not> instanceAllRecords c \<and>
        \<not> is_model (heap c 0) \<and> destroyed_prop (heap c 0) \<and>
        (case restore c of
           Inl e \<Rightarrow> False
         | Inr c0 \<Rightarrow> records c0 = [Ref 1, Ref 2, Ref 3] \<and> length_c c0 = 3 \<and> \<not> filtered c0 \<and>
             add_events (events c0) = []))"
  by code_simp

theorem add_destroyed_raw_raises_witness:
  "add lazy_coll (Array [Ref 1, Ref 0]) NoIndex = Inl (InvalidRecordState, lazy_coll) \<and>
   (\<exists>c c0. run (constructor doomed_heap 4 ''id'' None False [Ref 1, Ref 2, Ref 3]) [Filter (Some only_b)]
        = Inr c \<and>
      filtered c \<and> records c = [Ref 1] \<and>
      add c (Single (Ref 0)) NoIndex = Inl (InvalidRecordState, c0) \<and>
      records c0 = [Ref 1, Ref 2, Ref 3] \<and> length_c c0 = 3 \<and> \<not> filtered c0 \<and>
      add_events (events c0) = [])"
proof -
  have run: "run (constructor doomed_heap 2 ''id'' None False []) [] = Inr lazy_coll"
    by (simp add: lazy_coll_def)
  have h: "\<not> instanceAllRecords lazy_coll" "\<not> is_model (heap lazy_coll 0)" "destroyed_prop (heap lazy_coll 0)"
    "\<not> filtered lazy_coll"
    by (simp_all add: lazy_coll_def constructor_def doomed_heap_def raw_def destroyed_prop_def read_key_def)
  have b: "toArray (Array [Ref 1, Ref 0]) = [Ref 1] @ Ref 0 # []" by simp
  have p: "\<forall>s\<in>set [Ref 1]. truthy_slot s" by simp
  from add_destroyed_raw_raises[OF run h(1) b p h(2,3), of NoIndex] h(4)
  have 1: "add lazy_coll (Array [Ref 1, Ref 0]) NoIndex = Inl (InvalidRecordState, lazy_coll)" by auto
  from doomed_filtered_eval obtain c c0 where
    r: "run (constructor doomed_heap 4 ''id'' None False [Ref 1, Ref 2, Ref 3]) [Filter (Some only_b)] = Inr c" and
    f: "filtered c" "records c = [Ref 1]" "\<not> instanceAllRecords c" "\<not> is_model (heap c 0)"
       "destroyed_prop (heap c 0)" and
    r0: "restore c = Inr c0" "records c0 = [Ref 1, Ref 2, Ref 3]" "length_c c0 = 3" "\<not> filtered c0"
        "add_events (events c0) = []"
    by (auto simp: doomed3_def split: sum.splits)
  have b2: "toArray (Single (Ref 0)) = [] @ Ref 0 # []" by simp
  have p2: "\<forall>s\<in>set []. truthy_slot s" by simp
  from add_destroyed_raw_raises[OF r f(3) b2 p2 f(4,5), of NoIndex] r0(1)
  have "add c (Single (Ref 0)) NoIndex = Inl (InvalidRecordState, c0)" by auto
  with r f r0 have "\<exists>c c0. run (constructor doomed_heap 4 ''id'' None False [Ref 1, Ref 2, Ref 3]) [Filter (Some only_b)]
        = Inr c \<and>
      filtered c \<and> records c = [Ref 1] \<and>
      add c (Single (Ref 0)) NoIndex = Inl (InvalidRecordState, c0) \<and>
      records c0 = [Ref 1, Ref 2, Ref 3] \<and> length_c c0 = 3 \<and> \<not> filtered c0 \<and>
      add_events (events c0) = []" by blast
  with 1 show ?thesis by blast
qed

text \<open>
  C8: every \<^verbatim>\<open>add\<close> that inserts an entry that is not a record of the model kind emits an
  \<^verbatim>\<open>add\<close> event with the index of that entry. After a falsy entry of the batch the loop
  that collects the indices has ended: \<^verbatim>\<open>add([null, X])\<close> inserts the raw hash \<open>X\<close> at index
  5, returns no index and emits no \<^verbatim>\<open>add\<close> event.
\<close>

theorem add_skips_after_falsy:
  "\<not> is_model (heap abcd 7) \<and>
   (case add abcd (Array [NullV, Ref 7]) NoIndex of
      Inl e \<Rightarrow> False
    | Inr (added, c') \<Rightarrow>
        added = [] \<and> records c' = [Ref 0, Ref 1, Ref 2, Ref 3, NullV, Ref 7] \<and>
        events c' = [ObserversNotified ''length''])"
  by code_simp

text \<open>
  C8, as amended: in any state that calls of the collection reach from its construction,
  for a batch of existing objects, \<^verbatim>\<open>add\<close> returns the indices \<open>k + n\<close> of the entries \<open>k\<close>
  before the first falsy entry of the batch that were not instances of the model kind
  when the call was made, \<open>n\<close> being the normalized index. The whole batch is spliced in at
  \<open>n\<close>, so entry \<open>k\<close> stands at index \<open>k + n\<close> (as it was passed, unless
  \<^verbatim>\<open>instanceAllRecords\<close> materialized it). One \<^verbatim>\<open>add\<close> event with these indices is handed
  to the store if there are any, and none otherwise.
\<close>

theorem add_reports_raw_prefix:
  assumes "run (constructor h n pk mk eager data) calls = Inr c"
    and "add c b i = Inr (added, c')"
    and "instanceAllRecords c \<longrightarrow> (\<forall>a. Ref a \<in> set (toArray b) \<longrightarrow> a < next_ref c)"
  shows "\<exists>c0 rs'. restore c = Inr c0 \<and>
           added = map (\<lambda>k. k + normalize_index i (length_c c0))
                     (filter (\<lambda>k. \<not> slot_is_model c (toArray b ! k))
                        [0..<length (takeWhile truthy_slot (toArray b))]) \<and>
           normalize_index i (length_c c0) \<le> length (records c0) \<and>
           length rs' = length (toArray b) \<and> (\<not> instanceAllRecords c \<longrightarrow> rs' = toArray b) \<and>
           records c' = splice_in (records c0) (normalize_index i (length_c c0)) rs' \<and>
           add_events (emitted c c') = (if added = [] then [] else [AddEvent added])"
proof -
  from reachable_idle[OF assms(1)] have ic: "idle c" .
  let ?P = "\<lambda>k. case toArray b ! k of Ref a \<Rightarrow> is_model (heap c a) | _ \<Rightarrow> False"
  have P: "?P = (\<lambda>k. slot_is_model c (toArray b ! k))" by (simp add: slot_is_model_def)
  from assms(2) show ?thesis
  proof (cases rule: add_cases)
    case (1 c0)
    from restore_idle[OF ic 1(1)] have "length_c c0 = length (records c0)"
      by (simp add: idle_def coherent_def)
    with normalize_index_le[of i "length_c c0"]
    have le: "normalize_index i (length_c c0) \<le> length (records c0)" by simp
    from restore_events[OF ic 1(1)] 1(4) have "add_events (emitted c c') = []"
      by (auto simp: emitted_def)
    with 1 le show ?thesis by (intro exI[of _ c0] exI[of _ "[]"]) (simp add: splice_in_def)
  next
    case (2 c0 c1 rs')
    from restore_idle[OF ic 2(1)] have i0: "idle c0" by simp
    then have "length_c c0 = length (records c0)" by (simp add: idle_def coherent_def)
    with normalize_index_le[of i "length_c c0"]
    have le: "normalize_index i (length_c c0) \<le> length (records c0)" by simp
    from restore_heap[OF 2(1)] have hp: "heap c0 = heap c" "instanceAllRecords c0 = instanceAllRecords c"
      "next_ref c0 = next_ref c" by simp_all
    from add_loop_added[OF 2(3), of "\<lambda>a. is_model (heap c a)"] hp assms(3)
    have "added = concat (map (\<lambda>k. if ?P k then [] else [k + 0 + normalize_index i (length_c c0)])
                   [0..<length (takeWhile truthy_slot (toArray b))])"
      by simp
    then have ad: "added = map (\<lambda>k. k + normalize_index i (length_c c0))
                     (filter (\<lambda>k. \<not> slot_is_model c (toArray b ! k))
                        [0..<length (takeWhile truthy_slot (toArray b))])"
      by (simp add: concat_if_filter slot_is_model_def)
    from add_loop_shape[OF 2(3)] have sh: "shape c1 = shape c0" and len: "length rs' = length (toArray b)"
      by simp_all
    from add_loop_lazy[OF 2(3)] hp have lazy: "\<not> instanceAllRecords c \<longrightarrow> rs' = toArray b" by simp
    from shape_fields[OF sh] i0 have ns: "\<not> silenced c1" and ev: "events c1 = events c0"
      by (simp_all add: idle_def)
    define xs where "xs = splice_in (records c0) (normalize_index i (length_c c0)) rs'"
    from add_finish_length[OF ns, of "length_c c0" xs added] 2(4) ev
    have e1: "events c' = events c0 @ (if length_c c0 \<noteq> length xs then [ObserversNotified ''length''] else [])
             @ (if added \<noteq> [] then [AddEvent added] else [])"
      and rc: "records c' = xs"
      by (simp_all add: xs_def add_finish_def Let_def)
    from restore_events[OF ic 2(1)] obtain es where es: "events c0 = events c @ es" "add_events es = []"
      by blast
    with e1 have "add_events (emitted c c') = (if added = [] then [] else [AddEvent added])"
      by (simp add: emitted_def add_events_def)
    with 2(1) ad le len lazy rc show ?thesis
      by (intro exI[of _ c0] exI[of _ rs']) (simp add: xs_def)
  qed
qed

lemma mixed_add_eval:
  "(case add mixed (Array [Ref 1, Ref 0]) (Index 1) of
      Inl e \<Rightarrow> False
    | Inr (added, c') \<Rightarrow> added = [2] \<and> records c' = [Ref 0, Ref 1, Ref 0, Ref 1])"
  by code_simp

lemma eager_add_eval:
  "(case add eager_coll (Array [Ref 1, Ref 0]) NoIndex of
      Inl e \<Rightarrow> False
    | Inr (added, c') \<Rightarrow> added = [0, 1] \<and> records c' = [Ref 2, Ref 3])"
  by code_simp

theorem add_reports_raw_prefix_witness:
  "(\<exists>c'. add mixed (Array [Ref 1, Ref 0]) (Index 1) = Inr ([2], c') \<and>
      records c' = [Ref 0, Ref 1, Ref 0, Ref 1] \<and>
      add_events (emitted mixed c') = [AddEvent [2]]) \<and>
   (\<exists>c'. add eager_coll (Array [Ref 1, Ref 0]) NoIndex = Inr ([0, 1], c') \<and>
      records c' = [Ref 2, Ref 3] \<and>
      add_events (emitted eager_coll c') = [AddEvent [0, 1]])"
proof -
  from mixed_add_eval obtain c' where
    a: "add mixed (Array [Ref 1, Ref 0]) (Index 1) = Inr ([2], c')" and
    r: "records c' = [Ref 0, Ref 1, Ref 0, Ref 1]"
    by (auto split: sum.splits)
  have run: "run (constructor mixed_heap 2 ''id'' None False [Ref 0, Ref 1]) [] = Inr mixed"
    by (simp add: mixed_def)
  have "instanceAllRecords mixed \<longrightarrow> (\<forall>a. Ref a \<in> set (toArray (Array [Ref 1, Ref 0])) \<longrightarrow> a < next_ref mixed)"
    by (simp add: mixed_def constructor_def)
  from add_reports_raw_prefix[OF run a this] have "add_events (emitted mixed c') = [AddEvent [2]]"
    by auto
  with a r have 1: "\<exists>c'. add mixed (Array [Ref 1, Ref 0]) (Index 1) = Inr ([2], c') \<and>
      records c' = [Ref 0, Ref 1, Ref 0, Ref 1] \<and>
      add_events (emitted mixed c') = [AddEvent [2]]" by blast
  from eager_add_eval obtain c2 where
    a2: "add eager_coll (Array [Ref 1, Ref 0]) NoIndex = Inr ([0, 1], c2)" and
    r2: "records c2 = [Ref 2, Ref 3]"
    by (auto split: sum.splits)
  have run2: "run (constructor doomed_heap 2 ''id'' None True []) [] = Inr eager_coll"
    by (simp add: eager_coll_def)
  have "instanceAllRecords eager_coll \<longrightarrow>
      (\<forall>a. Ref a \<in> set (toArray (Array [Ref 1, Ref 0])) \<longrightarrow> a < next_ref eager_coll)"
    by (auto simp: eager_coll_def constructor_def)
  from add_reports_raw_prefix[OF run2 a2 this] have "add_events (emitted eager_coll c2) = [AddEvent [0, 1]]"
    by auto
  with a2 r2 have 2: "\<exists>c'. add eager_coll (Array [Ref 1, Ref 0]) NoIndex = Inr ([0, 1], c') \<and>
      records c' = [Ref 2, Ref 3] \<and>
      add_events (emitted eager_coll c') = [AddEvent [0, 1]]" by blast
  from 1 2 show ?thesis by blast
qed

section \<open>merge\<close>

lemma keys_loop_fst:
  "fst (keys_loop r cand mk (m0, v)) =
     (if takeWhile (\<lambda>m. m \<noteq> []) mk = [] then m0
      else list_all (\<lambda>m. read_key r m = read_key cand m) (takeWhile (\<lambda>m. m \<noteq> []) mk))"
  by (induction mk arbitrary: m0 v) (auto simp: Let_def)

lemma keys_loop_match: "fst (keys_loop r cand mk (False, v)) = keys_match r cand mk"
  by (simp add: keys_loop_fst keys_match_def Let_def)

lemma keys_loop_stops:
  "list_all (\<lambda>m. m \<noteq> [] \<and> read_key r m = read_key cand m) ks \<Longrightarrow> m \<noteq> [] \<Longrightarrow>
   read_key r m \<noteq> read_key cand m \<Longrightarrow>
   keys_loop r cand (ks @ m # rest) (m0, v) = (False, read_key r m)"
  by (induction ks arbitrary: m0 v) (auto simp: Let_def)

lemma candidate_test_fst:
  "fst (candidate_test c a v b) \<longleftrightarrow>
     (defined v \<and> v = read_key (heap c b) (primaryKey c)) \<or>
     (\<exists>mk. mergeKeys c = Some mk \<and> keys_match (heap c a) (heap c b) mk)"
  by (auto simp: candidate_test_def keys_loop_match split: option.splits)

lemma candidate_test_no_keys:
  "mergeKeys c = None \<Longrightarrow>
     candidate_test c a v b =
       (if defined v \<and> v = read_key (heap c b) (primaryKey c) then (True, v) else (False, v))"
  by (auto simp: candidate_test_def)

lemma merge_find_no_keys:
  assumes "mergeKeys c = None"
  shows "merge_find c a v pre local = Some (b, local') \<longleftrightarrow>
     (\<exists>xs ys. local = xs @ Ref b # ys \<and> local' = pre @ xs @ ys \<and>
        defined v \<and> v = read_key (heap c b) (primaryKey c) \<and>
        (\<forall>s\<in>set xs. \<exists>b'. s = Ref b' \<and> v \<noteq> read_key (heap c b') (primaryKey c)))"
proof (induction local arbitrary: pre)
  case Nil
  show ?case by simp
next
  case (Cons s rest)
  show ?case
  proof (cases s)
    case (Ref b0)
    show ?thesis
    proof (cases "defined v \<and> v = read_key (heap c b0) (primaryKey c)")
      case True
      have "(\<exists>xs ys. Ref b0 # rest = xs @ Ref b # ys \<and> local' = pre @ xs @ ys \<and>
              defined v \<and> v = read_key (heap c b) (primaryKey c) \<and>
              (\<forall>s\<in>set xs. \<exists>b'. s = Ref b' \<and> v \<noteq> read_key (heap c b') (primaryKey c)))
            \<longleftrightarrow> b = b0 \<and> local' = pre @ rest"
        (is "?R \<longleftrightarrow> _")
      proof
        assume ?R
        then obtain xs ys where x: "Ref b0 # rest = xs @ Ref b # ys" "local' = pre @ xs @ ys"
          "\<forall>s\<in>set xs. \<exists>b'. s = Ref b' \<and> v \<noteq> read_key (heap c b') (primaryKey c)" by blast
        have "xs = []"
        proof (cases xs)
          case (Cons y ys')
          with x(1) have "y = Ref b0" by simp
          with Cons x(3) True show ?thesis by auto
        qed simp
        with x show "b = b0 \<and> local' = pre @ rest" by simp
      next
        assume "b = b0 \<and> local' = pre @ rest"
        with True show ?R by - (rule exI[of _ "[]"], rule exI[of _ rest], auto)
      qed
      moreover from True assms have "candidate_test c a v b0 = (True, v)"
        by (auto simp: candidate_test_def)
      ultimately show ?thesis using Ref by auto
    next
      case False
      have "(\<exists>xs ys. Ref b0 # rest = xs @ Ref b # ys \<and> local' = pre @ xs @ ys \<and>
              defined v \<and> v = read_key (heap c b) (primaryKey c) \<and>
              (\<forall>s\<in>set xs. \<exists>b'. s = Ref b' \<and> v \<noteq> read_key (heap c b') (primaryKey c)))
            \<longleftrightarrow> (\<exists>xs ys. rest = xs @ Ref b # ys \<and> local' = (pre @ [Ref b0]) @ xs @ ys \<and>
              defined v \<and> v = read_key (heap c b) (primaryKey c) \<and>
              (\<forall>s\<in>set xs. \<exists>b'. s = Ref b' \<and> v \<noteq> read_key (heap c b') (primaryKey c)))"
        (is "?L \<longleftrightarrow> ?R")
      proof
        assume ?L
        then obtain xs ys where x: "Ref b0 # rest = xs @ Ref b # ys" "local' = pre @ xs @ ys"
          "defined v" "v = read_key (heap c b) (primaryKey c)"
          "\<forall>s\<in>set xs. \<exists>b'. s = Ref b' \<and> v \<noteq> read_key (heap c b') (primaryKey c)" by blast
        from x(1,3,4) False obtain xs' where xs: "xs = Ref b0 # xs'" by (cases xs) auto
        with x show ?R by - (rule exI[of _ xs'], rule exI[of _ ys], auto)
      next
        assume ?R
        then obtain xs ys where x: "rest = xs @ Ref b # ys" "local' = (pre @ [Ref b0]) @ xs @ ys"
          "defined v" "v = read_key (heap c b) (primaryKey c)"
          "\<forall>s\<in>set xs. \<exists>b'. s = Ref b' \<and> v \<noteq> read_key (heap c b') (primaryKey c)" by blast
        with False show ?L by - (rule exI[of _ "Ref b0 # xs"], rule exI[of _ ys], auto)
      qed
      moreover from False assms have "candidate_test c a v b0 = (False, v)"
        by (auto simp: candidate_test_def)
      ultimately show ?thesis using Ref Cons.IH[of "pre @ [Ref b0]"] by simp
    qed
  next
    case NullV
    have "\<not> (\<exists>xs ys. NullV # rest = xs @ Ref b # ys \<and>
              (\<forall>s\<in>set xs. \<exists>b'. s = Ref b' \<and> v \<noteq> read_key (heap c b') (primaryKey c)))"
      by (auto simp: Cons_eq_append_conv)
    with NullV show ?thesis by auto
  next
    case UndefV
    have "\<not> (\<exists>xs ys. UndefV # rest = xs @ Ref b # ys \<and>
              (\<forall>s\<in>set xs. \<exists>b'. s = Ref b' \<and> v \<noteq> read_key (heap c b') (primaryKey c)))"
      by (auto simp: Cons_eq_append_conv)
    with UndefV show ?thesis by auto
  qed
qed

lemma candidate_test_incoming:
  "fst (candidate_test c a (read_key (heap c a) (primaryKey c)) b) = matches_by_key c a b"
  by (auto simp: candidate_test_fst matches_by_key_def Let_def split: option.splits)

lemma merge_find_first:
  "merge_find c a (read_key (heap c a) (primaryKey c)) [] (Ref b # rest) =
     (if matches_by_key c a b then Some (b, rest)
      else merge_find c a (snd (candidate_test c a (read_key (heap c a) (primaryKey c)) b)) [Ref b] rest)"
  using candidate_test_incoming[of c a b]
  by (cases "candidate_test c a (read_key (heap c a) (primaryKey c)) b") auto

lemma merge_find_position:
  "merge_find c a v pre local = Some (b, l') \<Longrightarrow>
     \<exists>j. j < length local \<and> local ! j = Ref b \<and> l' = pre @ take j local @ drop (Suc j) local"
proof (induction c a v pre local rule: merge_find.induct)
  case (2 c a v pre b0 rest)
  obtain m v' where ct: "candidate_test c a v b0 = (m, v')" by (cases "candidate_test c a v b0")
  show ?case
  proof (cases m)
    case True
    with ct "2.prems" have "b = b0" "l' = pre @ rest" by simp_all
    then show ?thesis by (intro exI[of _ 0]) simp
  next
    case False
    with ct "2.prems" have "merge_find c a v' (pre @ [Ref b0]) rest = Some (b, l')" by simp
    from "2.IH"[OF ct[symmetric] _ this] False obtain j where
      "j < length rest" "rest ! j = Ref b" "l' = (pre @ [Ref b0]) @ take j rest @ drop (Suc j) rest"
      by auto
    then show ?thesis by (intro exI[of _ "Suc j"]) simp
  qed
qed simp_all

lemma merge_find_keys_match:
  assumes "mergeKeys c = Some mk" "keys_match (heap c a) (heap c b) mk"
  shows "\<forall>s\<in>set xs. truthy_slot s \<Longrightarrow>
     \<exists>j b' l'. j \<le> length xs \<and> (xs @ [Ref b]) ! j = Ref b' \<and>
        merge_find c a v pre (xs @ Ref b # rest) = Some (b', l')"
proof (induction xs arbitrary: v pre)
  case Nil
  from assms have "fst (candidate_test c a v b)" by (simp add: candidate_test_fst)
  then obtain v' where "candidate_test c a v b = (True, v')"
    by (cases "candidate_test c a v b") auto
  then show ?case by simp
next
  case (Cons s xs)
  then obtain b0 where s: "s = Ref b0" by (cases s) auto
  obtain m v' where ct: "candidate_test c a v b0 = (m, v')" by (cases "candidate_test c a v b0")
  show ?case
  proof (cases m)
    case True
    with ct s have "merge_find c a v pre ((s # xs) @ Ref b # rest) = Some (b0, pre @ xs @ Ref b # rest)"
      by simp
    with s show ?thesis by (intro exI[of _ 0] exI[of _ b0] exI[of _ "pre @ xs @ Ref b # rest"]) simp
  next
    case False
    from Cons.prems have "\<forall>s\<in>set xs. truthy_slot s" by simp
    from Cons.IH[OF this, of v' "pre @ [Ref b0]"] obtain j b' l' where
      j: "j \<le> length xs" "(xs @ [Ref b]) ! j = Ref b'"
         "merge_find c a v' (pre @ [Ref b0]) (xs @ Ref b # rest) = Some (b', l')" by blast
    with ct s False have "merge_find c a v pre ((s # xs) @ Ref b # rest) = Some (b', l')" by simp
    with j show ?thesis by (intro exI[of _ "Suc j"] exI[of _ b'] exI[of _ l']) simp
  qed
qed

lemma merge_single:
  "merge c (Single (Ref a)) =
     (if mergeKeys c \<noteq> None \<or> defined (read_key (heap c a) (primaryKey c)) then
        (case merge_find c a (read_key (heap c a) (primaryKey c)) [] (records c) of
           Some (b, l') \<Rightarrow> Inr (merge_into c b a)
         | None \<Rightarrow> step c (Add (Array [Ref a]) NoIndex))
      else step c (Add (Array [Ref a]) NoIndex))"
  by (auto simp: merge_def Let_def split: option.splits sum.splits)

lemma merge_first_candidate:
  assumes "records c = Ref b # rest" "matches_by_key c a b"
  shows "merge c (Single (Ref a)) = Inr (merge_into c b a)"
proof -
  from assms(2) have "mergeKeys c \<noteq> None \<or> defined (pk_value c a)"
    by (auto simp: matches_by_key_def Let_def split: option.splits)
  with assms merge_find_first[of c a b rest] show ?thesis by (simp add: merge_single)
qed

lemma merge_not_first_candidate:
  assumes "records c = Ref b # rest" "\<not> matches_by_key c a b"
  shows "merge c (Single (Ref a)) = step c (Add (Array [Ref a]) NoIndex) \<or>
     (\<exists>j b'. j < length rest \<and> rest ! j = Ref b' \<and> merge c (Single (Ref a)) = Inr (merge_into c b' a))"
proof (cases "mergeKeys c \<noteq> None \<or> defined (pk_value c a)")
  case False
  then show ?thesis by (simp add: merge_single)
next
  case True
  let ?v = "snd (candidate_test c a (pk_value c a) b)"
  from assms merge_find_first[of c a b rest]
  have mf: "merge_find c a (pk_value c a) [] (records c) = merge_find c a ?v [Ref b] rest" by simp
  show ?thesis
  proof (cases "merge_find c a ?v [Ref b] rest")
    case None
    with mf True show ?thesis by (simp add: merge_single)
  next
    case (Some p)
    obtain b' l' where p: "p = (b', l')" by (cases p)
    from merge_find_position[OF Some[unfolded p]] obtain j where "j < length rest" "rest ! j = Ref b'"
      by blast
    moreover from mf Some p True have "merge c (Single (Ref a)) = Inr (merge_into c b' a)"
      by (simp add: merge_single)
    ultimately show ?thesis by blast
  qed
qed

lemma merge_keys_candidate:
  assumes "mergeKeys c = Some mk" "records c = pre @ Ref b # rest" "\<forall>s\<in>set pre. truthy_slot s"
    "keys_match (heap c a) (heap c b) mk"
  shows "\<exists>j b'. j \<le> length pre \<and> (pre @ [Ref b]) ! j = Ref b' \<and>
           merge c (Single (Ref a)) = Inr (merge_into c b' a)"
proof -
  from merge_find_keys_match[OF assms(1,4,3), of "pk_value c a" "[]" rest] assms(2) obtain j b' l' where
    "j \<le> length pre" "(pre @ [Ref b]) ! j = Ref b'"
    "merge_find c a (pk_value c a) [] (records c) = Some (b', l')" by auto
  with assms(1) show ?thesis by (auto simp: merge_single)
qed

lemma merge_primary_key_alone:
  assumes "mergeKeys c = None" "records c = pre @ Ref b # rest" "defined (pk_value c a)"
    "pk_value c b = pk_value c a" "\<forall>s\<in>set pre. \<exists>b'. s = Ref b' \<and> pk_value c b' \<noteq> pk_value c a"
  shows "merge c (Single (Ref a)) = Inr (merge_into c b a)"
proof -
  have "\<exists>xs ys. records c = xs @ Ref b # ys \<and> pre @ rest = [] @ xs @ ys \<and>
        defined (pk_value c a) \<and> pk_value c a = pk_value c b \<and>
        (\<forall>s\<in>set xs. \<exists>b'. s = Ref b' \<and> pk_value c a \<noteq> pk_value c b')"
    using assms(2-5) by (rule_tac x = pre in exI, rule_tac x = rest in exI) auto
  with merge_find_no_keys[OF assms(1), of a "pk_value c a" "[]" "records c" b "pre @ rest"]
  have "merge_find c a (pk_value c a) [] (records c) = Some (b, pre @ rest)" by blast
  with assms(3) show ?thesis by (simp add: merge_single)
qed

lemma takeWhile_reaches:
  "\<forall>s\<in>set xs. P s \<Longrightarrow> P y \<Longrightarrow> y \<in> set (takeWhile P (xs @ y # ys))"
  by (induction xs) auto

lemma merge_no_primary_key_match:
  assumes "mergeKeys c = None"
    "\<not> defined (pk_value c a) \<or>
     (\<forall>s\<in>set (takeWhile truthy_slot (records c)). \<forall>b'. s = Ref b' \<longrightarrow> pk_value c b' \<noteq> pk_value c a)"
  shows "merge c (Single (Ref a)) = step c (Add (Array [Ref a]) NoIndex)"
proof (cases "defined (pk_value c a)")
  case False
  with assms(1) show ?thesis by (simp add: merge_single)
next
  case True
  have "merge_find c a (pk_value c a) [] (records c) = None"
  proof (rule ccontr)
    assume "merge_find c a (pk_value c a) [] (records c) \<noteq> None"
    then obtain b l' where "merge_find c a (pk_value c a) [] (records c) = Some (b, l')" by auto
    with merge_find_no_keys[OF assms(1), of a "pk_value c a" "[]" "records c" b l'] obtain xs ys where
      x: "records c = xs @ Ref b # ys" "pk_value c a = pk_value c b"
         "\<forall>s\<in>set xs. \<exists>b'. s = Ref b' \<and> pk_value c a \<noteq> pk_value c b'" by blast
    from x(3) have "\<forall>s\<in>set xs. truthy_slot s" by auto
    from takeWhile_reaches[OF this, of "Ref b" ys] x(1)
    have "Ref b \<in> set (takeWhile truthy_slot (records c))" by simp
    with assms(2) True x(2) show False by auto
  qed
  with True show ?thesis by (simp add: merge_single)
qed

lemma merge_loop_step:
  "merge_loop c (Ref a # rs) local u =
     (if mergeKeys c \<noteq> None \<or> defined (pk_value c a) then
        (case merge_find c a (pk_value c a) [] local of
           Some (b, l') \<Rightarrow> merge_loop (merge_into c b a) rs l' u
         | None \<Rightarrow> merge_loop c rs local (u @ [Ref a]))
      else merge_loop c rs local (u @ [Ref a]))"
  by (simp add: Let_def)

lemma merge_find_keys_match_at:
  assumes "mergeKeys c = Some mk" "keys_match (heap c a) (heap c b) mk"
  shows "\<forall>s\<in>set xs. truthy_slot s \<Longrightarrow>
     \<exists>j b'. j \<le> length xs \<and> (xs @ [Ref b]) ! j = Ref b' \<and>
        merge_find c a v pre (xs @ Ref b # rest) =
          Some (b', pre @ take j (xs @ Ref b # rest) @ drop (Suc j) (xs @ Ref b # rest))"
proof (induction xs arbitrary: v pre)
  case Nil
  from assms have "fst (candidate_test c a v b)" by (simp add: candidate_test_fst)
  then obtain v' where "candidate_test c a v b = (True, v')"
    by (cases "candidate_test c a v b") auto
  then show ?case by simp
next
  case (Cons s xs)
  then obtain b0 where s: "s = Ref b0" by (cases s) auto
  obtain m v' where ct: "candidate_test c a v b0 = (m, v')" by (cases "candidate_test c a v b0")
  show ?case
  proof (cases m)
    case True
    with ct s have "merge_find c a v pre ((s # xs) @ Ref b # rest) = Some (b0, pre @ xs @ Ref b # rest)"
      by simp
    with s show ?thesis by (intro exI[of _ 0] exI[of _ b0]) simp
  next
    case False
    from Cons.prems have "\<forall>s\<in>set xs. truthy_slot s" by simp
    from Cons.IH[OF this, of v' "pre @ [Ref b0]"] obtain j b' where
      j: "j \<le> length xs" "(xs @ [Ref b]) ! j = Ref b'"
         "merge_find c a v' (pre @ [Ref b0]) (xs @ Ref b # rest) =
            Some (b', (pre @ [Ref b0]) @ take j (xs @ Ref b # rest) @ drop (Suc j) (xs @ Ref b # rest))"
      by blast
    with ct s False have "merge_find c a v pre ((s # xs) @ Ref b # rest) =
        Some (b', pre @ take (Suc j) ((s # xs) @ Ref b # rest) @ drop (Suc (Suc j)) ((s # xs) @ Ref b # rest))"
      by simp
    with j(1,2) show ?thesis by (intro exI[of _ "Suc j"] exI[of _ b']) simp
  qed
qed

lemma loop_first_candidate:
  assumes "local = Ref b # rest" "matches_by_key c a b"
  shows "merge_loop c (Ref a # rs) local u = merge_loop (merge_into c b a) rs rest u"
proof -
  from assms(2) have "mergeKeys c \<noteq> None \<or> defined (pk_value c a)"
    by (auto simp: matches_by_key_def Let_def split: option.splits)
  with assms merge_find_first[of c a b rest] show ?thesis by (simp add: merge_loop_step)
qed

lemma loop_not_first_candidate:
  assumes "local = Ref b # rest" "\<not> matches_by_key c a b"
  shows "merge_loop c (Ref a # rs) local u = merge_loop c rs local (u @ [Ref a]) \<or>
     (\<exists>j b'. j < length rest \<and> rest ! j = Ref b' \<and>
        merge_loop c (Ref a # rs) local u =
          merge_loop (merge_into c b' a) rs (Ref b # take j rest @ drop (Suc j) rest) u)"
proof (cases "mergeKeys c \<noteq> None \<or> defined (pk_value c a)")
  case False
  then show ?thesis by (simp add: merge_loop_step)
next
  case True
  let ?v = "snd (candidate_test c a (pk_value c a) b)"
  from assms merge_find_first[of c a b rest]
  have mf: "merge_find c a (pk_value c a) [] local = merge_find c a ?v [Ref b] rest" by simp
  show ?thesis
  proof (cases "merge_find c a ?v [Ref b] rest")
    case None
    with mf True show ?thesis by (simp add: merge_loop_step)
  next
    case (Some p)
    obtain b' l' where p: "p = (b', l')" by (cases p)
    from merge_find_position[OF Some[unfolded p]] obtain j where
      j: "j < length rest" "rest ! j = Ref b'" "l' = [Ref b] @ take j rest @ drop (Suc j) rest"
      by blast
    from mf Some p True j(3) have "merge_loop c (Ref a # rs) local u =
          merge_loop (merge_into c b' a) rs (Ref b # take j rest @ drop (Suc j) rest) u"
      by (simp add: merge_loop_step)
    with j(1,2) show ?thesis by blast
  qed
qed

lemma loop_keys_candidate:
  assumes "mergeKeys c = Some mk" "local = pre @ Ref b # rest" "\<forall>s\<in>set pre. truthy_slot s"
    "keys_match (heap c a) (heap c b) mk"
  shows "\<exists>j b'. j \<le> length pre \<and> local ! j = Ref b' \<and>
           merge_loop c (Ref a # rs) local u =
             merge_loop (merge_into c b' a) rs (take j local @ drop (Suc j) local) u"
proof -
  from merge_find_keys_match_at[OF assms(1,4,3), of "pk_value c a" "[]" rest] assms(2) obtain j b' where
    j: "j \<le> length pre" "(pre @ [Ref b]) ! j = Ref b'"
    "merge_find c a (pk_value c a) [] local = Some (b', take j local @ drop (Suc j) local)" by auto
  from j(1,2) assms(2) have "local ! j = Ref b'"
    by (cases "j < length pre") (auto simp: nth_append)
  with j(1,3) assms(1) show ?thesis by (auto simp: merge_loop_step)
qed

lemma loop_primary_key_alone:
  assumes "mergeKeys c = None" "local = pre @ Ref b # rest" "defined (pk_value c a)"
    "pk_value c b = pk_value c a" "\<forall>s\<in>set pre. \<exists>b'. s = Ref b' \<and> pk_value c b' \<noteq> pk_value c a"
  shows "merge_loop c (Ref a # rs) local u = merge_loop (merge_into c b a) rs (pre @ rest) u"
proof -
  have "\<exists>xs ys. local = xs @ Ref b # ys \<and> pre @ rest = [] @ xs @ ys \<and>
        defined (pk_value c a) \<and> pk_value c a = pk_value c b \<and>
        (\<forall>s\<in>set xs. \<exists>b'. s = Ref b' \<and> pk_value c a \<noteq> pk_value c b')"
    using assms(2-5) by (rule_tac x = pre in exI, rule_tac x = rest in exI) auto
  with merge_find_no_keys[OF assms(1), of a "pk_value c a" "[]" local b "pre @ rest"]
  have "merge_find c a (pk_value c a) [] local = Some (b, pre @ rest)" by blast
  with assms(3) show ?thesis by (simp add: merge_loop_step)
qed

lemma loop_no_primary_key_match:
  assumes "mergeKeys c = None"
    "\<not> defined (pk_value c a) \<or>
     (\<forall>s\<in>set (takeWhile truthy_slot local). \<forall>b'. s = Ref b' \<longrightarrow> pk_value c b' \<noteq> pk_value c a)"
  shows "merge_loop c (Ref a # rs) local u = merge_loop c rs local (u @ [Ref a])"
proof (cases "defined (pk_value c a)")
  case False
  with assms(1) show ?thesis by (simp add: merge_loop_step)
next
  case True
  have "merge_find c a (pk_value c a) [] local = None"
  proof (rule ccontr)
    assume "merge_find c a (pk_value c a) [] local \<noteq> None"
    then obtain b l' where "merge_find c a (pk_value c a) [] local = Some (b, l')" by auto
    with merge_find_no_keys[OF assms(1), of a "pk_value c a" "[]" local b l'] obtain xs ys where
      x: "local = xs @ Ref b # ys" "pk_value c a = pk_value c b"
         "\<forall>s\<in>set xs. \<exists>b'. s = Ref b' \<and> pk_value c a \<noteq> pk_value c b'" by blast
    from x(3) have "\<forall>s\<in>set xs. truthy_slot s" by auto
    from takeWhile_reaches[OF this, of "Ref b" ys] x(1)
    have "Ref b \<in> set (takeWhile truthy_slot local)" by simp
    with assms(2) True x(2) show False by auto
  qed
  with True show ?thesis by (simp add: merge_loop_step)
qed

lemma merge_by_loop:
  "batch_truthy recs \<Longrightarrow>
   merge c recs =
     (case merge_loop c (toArray recs) (records c) [] of
        (c1, unmerged) \<Rightarrow> if unmerged = [] then Inr c1 else step c1 (Add (Array unmerged) NoIndex))"
  by (auto simp: merge_def split: prod.splits sum.splits)

text \<open>
  C3: when the model kind declares merge keys, an incoming item matches a candidate only
  when every merge key has the same value in both. Here the merge key \<open>a\<close> differs (2
  against 3) and the item still merges with the candidate, on the primary key, which the
  loop compares first: nothing is added and the local hash takes the incoming value.
\<close>

theorem merge_on_primary_key_despite_merge_keys:
  "mergeKeys keyed = Some [''a''] \<and>
   read_key (heap keyed 1) ''a'' \<noteq> read_key (heap keyed 0) ''a'' \<and>
   fst (candidate_test keyed 1 (read_key (heap keyed 1) (primaryKey keyed)) 0) \<and>
   (case merge keyed (Single (Ref 1)) of
      Inl e \<Rightarrow> False
    | Inr c' \<Rightarrow> records c' = [Ref 0] \<and> events c' = [] \<and> read_key (heap c' 0) ''a'' = Num 2)"
  by code_simp

text \<open>
  C3, as amended: \<^verbatim>\<open>merge\<close> compares the primary key first, also when merge keys are
  declared. An incoming item \<open>a\<close> matches a candidate \<open>b\<close> by key when its defined primary
  key value is the candidate's or, merge keys being declared, the list names a key and
  every listed key has the same value in both, whether or not the item has a primary key
  value.
  \<^item> The item merges with the first candidate exactly when it matches it by key; an item
    that does not is merged with a later candidate or added to the collection.
  \<^item> With merge keys declared, an item whose merge keys match a candidate that no falsy
    slot precedes is merged, with that candidate or with one before it.
  \<^item> With no merge keys declared, the item merges with the first candidate whose primary
    key value is its own defined one, and is added when it has none or no candidate before
    the first falsy slot has it.
  \<^item> The loop over the merge keys computes the conjunction, and ends at the first key that
    differs, whatever follows it.

  The first five statements are for the item of a one-item batch, whose candidates are
  the records. The next five are for any item of any batch, in the outer loop of
  \<^verbatim>\<open>merge\<close>: \<open>local\<close> holds the candidates no earlier item merged with and \<open>u\<close> the items set aside
  for \<^verbatim>\<open>add\<close>; an item that merges takes its candidate out of \<open>local\<close>. What the comparison
  of the primary key gives at a later candidate when merge keys are declared is not part of
  this.
\<close>

theorem merge_match_rule:
  "(records c = Ref b # rest \<and> matches_by_key c a b \<longrightarrow>
      merge c (Single (Ref a)) = Inr (merge_into c b a)) \<and>
   (records c = Ref b # rest \<and> \<not> matches_by_key c a b \<longrightarrow>
      merge c (Single (Ref a)) = step c (Add (Array [Ref a]) NoIndex) \<or>
      (\<exists>j b'. j < length rest \<and> rest ! j = Ref b' \<and>
         merge c (Single (Ref a)) = Inr (merge_into c b' a))) \<and>
   (mergeKeys c = Some mk \<and> records c = pre @ Ref b # rest \<and> (\<forall>s\<in>set pre. truthy_slot s) \<and>
      keys_match (heap c a) (heap c b) mk \<longrightarrow>
      (\<exists>j b'. j \<le> length pre \<and> (pre @ [Ref b]) ! j = Ref b' \<and>
         merge c (Single (Ref a)) = Inr (merge_into c b' a))) \<and>
   (mergeKeys c = None \<and> records c = pre @ Ref b # rest \<and> defined (pk_value c a) \<and>
      pk_value c b = pk_value c a \<and>
      (\<forall>s\<in>set pre. \<exists>b'. s = Ref b' \<and> pk_value c b' \<noteq> pk_value c a) \<longrightarrow>
      merge c (Single (Ref a)) = Inr (merge_into c b a)) \<and>
   (mergeKeys c = None \<and>
      (\<not> defined (pk_value c a) \<or>
       (\<forall>s\<in>set (takeWhile truthy_slot (records c)). \<forall>b'. s = Ref b' \<longrightarrow>
          pk_value c b' \<noteq> pk_value c a)) \<longrightarrow>
      merge c (Single (Ref a)) = step c (Add (Array [Ref a]) NoIndex)) \<and>
   (local = Ref b # rest \<and> matches_by_key c a b \<longrightarrow>
      merge_loop c (Ref a # rs) local u = merge_loop (merge_into c b a) rs rest u) \<and>
   (local = Ref b # rest \<and> \<not> matches_by_key c a b \<longrightarrow>
      merge_loop c (Ref a # rs) local u = merge_loop c rs local (u @ [Ref a]) \<or>
      (\<exists>j b'. j < length rest \<and> rest ! j = Ref b' \<and>
         merge_loop c (Ref a # rs) local u =
           merge_loop (merge_into c b' a) rs (Ref b # take j rest @ drop (Suc j) rest) u)) \<and>
   (mergeKeys c = Some mk \<and> local = pre @ Ref b # rest \<and> (\<forall>s\<in>set pre. truthy_slot s) \<and>
      keys_match (heap c a) (heap c b) mk \<longrightarrow>
      (\<exists>j b'. j \<le> length pre \<and> local ! j = Ref b' \<and>
         merge_loop c (Ref a # rs) local u =
           merge_loop (merge_into c b' a) rs (take j local @ drop (Suc j) local) u)) \<and>
   (mergeKeys c = None \<and> local = pre @ Ref b # rest \<and> defined (pk_value c a) \<and>
      pk_value c b = pk_value c a \<and>
      (\<forall>s\<in>set pre. \<exists>b'. s = Ref b' \<and> pk_value c b' \<noteq> pk_value c a) \<longrightarrow>
      merge_loop c (Ref a # rs) local u = merge_loop (merge_into c b a) rs (pre @ rest) u) \<and>
   (mergeKeys c = None \<and>
      (\<not> defined (pk_value c a) \<or>
       (\<forall>s\<in>set (takeWhile truthy_slot local). \<forall>b'. s = Ref b' \<longrightarrow>
          pk_value c b' \<noteq> pk_value c a)) \<longrightarrow>
      merge_loop c (Ref a # rs) local u = merge_loop c rs local (u @ [Ref a])) \<and>
   fst (keys_loop r cand ks (False, v)) = keys_match r cand ks \<and>
   (list_all (\<lambda>m. m \<noteq> [] \<and> read_key r m = read_key cand m) ks \<and> m \<noteq> [] \<and>
      read_key r m \<noteq> read_key cand m \<longrightarrow>
      keys_loop r cand (ks @ m # post) (False, v) = (False, read_key r m))"
  apply (intro conjI)
  subgoal using merge_first_candidate[of c b rest a] by blast
  subgoal using merge_not_first_candidate[of c b rest a] by blast
  subgoal using merge_keys_candidate[of c mk pre b rest a] by blast
  subgoal using merge_primary_key_alone[of c pre b rest a] by blast
  subgoal using merge_no_primary_key_match[of c a] by blast
  subgoal using loop_first_candidate[of local b rest c a rs u] by blast
  subgoal using loop_not_first_candidate[of local b rest c a rs u] by blast
  subgoal using loop_keys_candidate[of c mk local pre b rest a rs u] by blast
  subgoal using loop_primary_key_alone[of c local pre b rest a rs u] by blast
  subgoal using loop_no_primary_key_match[of c a local rs u] by blast
  subgoal by (rule keys_loop_match)
  subgoal using keys_loop_stops[of r cand ks m post False v] by blast
  done

theorem merge_match_rule_witness:
  "merge keyed (Single (Ref 1)) = Inr (merge_into keyed 0 1) \<and>
   merge keyed (Single (Ref 2)) = step keyed (Add (Array [Ref 2]) NoIndex) \<and>
   (\<exists>j b'. j \<le> 1 \<and> [Ref 2, Ref 3] ! j = Ref b' \<and>
      merge keyed2 (Single (Ref 1)) = Inr (merge_into keyed2 b' 1)) \<and>
   merge twins (Single (Ref 3)) = Inr (merge_into twins 1 3) \<and>
   merge abcd (Single (Ref 7)) = step abcd (Add (Array [Ref 7]) NoIndex) \<and>
   merge_loop twins [Ref 3, Ref 2] [Ref 0, Ref 1] [] = merge_loop (merge_into twins 1 3) [Ref 2] [Ref 0] [] \<and>
   keys_loop (heap keyed 0) (heap keyed 1) ([''id''] @ ''a'' # [''b'']) (False, Num 1)
     = (False, read_key (heap keyed 0) ''a'')"
proof -
  have r1: "records keyed = Ref 0 # []" by (simp add: keyed_def constructor_def)
  have m1: "matches_by_key keyed 1 0" "\<not> matches_by_key keyed 2 0" by code_simp+
  from merge_match_rule[where c = keyed and b = 0 and rest = "[]" and a = 1, THEN conjunct1] r1 m1(1)
  have 1: "merge keyed (Single (Ref 1)) = Inr (merge_into keyed 0 1)" by blast
  from merge_match_rule[where c = keyed and b = 0 and rest = "[]" and a = 2,
      THEN conjunct2, THEN conjunct1] r1 m1(2)
  have 2: "merge keyed (Single (Ref 2)) = step keyed (Add (Array [Ref 2]) NoIndex)" by simp
  have r3: "mergeKeys keyed2 = Some [''a'']" "records keyed2 = [Ref 2] @ Ref 3 # []"
    "\<forall>s\<in>set [Ref 2]. truthy_slot s"
    by (simp_all add: keyed2_def constructor_def)
  have m3: "keys_match (heap keyed2 1) (heap keyed2 3) [''a'']" by code_simp
  from merge_match_rule[where c = keyed2 and mk = "[''a'']" and pre = "[Ref 2]" and b = 3 and rest = "[]"
      and a = 1, THEN conjunct2, THEN conjunct2, THEN conjunct1] r3 m3
  have 3: "\<exists>j b'. j \<le> 1 \<and> [Ref 2, Ref 3] ! j = Ref b' \<and>
      merge keyed2 (Single (Ref 1)) = Inr (merge_into keyed2 b' 1)" by simp
  have r4: "mergeKeys twins = None" "records twins = [Ref 0] @ Ref 1 # []"
    by (simp_all add: twins_def constructor_def)
  have m4: "defined (pk_value twins 3)" "pk_value twins 1 = pk_value twins 3"
    "pk_value twins 0 \<noteq> pk_value twins 3" by code_simp+
  then have p4: "\<forall>s\<in>set [Ref 0]. \<exists>b'. s = Ref b' \<and> pk_value twins b' \<noteq> pk_value twins 3" by simp
  note t4 = merge_match_rule[where c = twins and pre = "[Ref 0]" and b = 1 and rest = "[]" and a = 3
      and local = "[Ref 0, Ref 1]" and rs = "[Ref 2]" and u = "[]"]
  from t4[THEN conjunct2, THEN conjunct2, THEN conjunct2, THEN conjunct1] r4 m4(1,2) p4
  have 4: "merge twins (Single (Ref 3)) = Inr (merge_into twins 1 3)" by blast
  from t4[THEN conjunct2, THEN conjunct2, THEN conjunct2, THEN conjunct2, THEN conjunct2,
      THEN conjunct2, THEN conjunct2, THEN conjunct2, THEN conjunct1] r4(1) m4(1,2) p4
  have 5: "merge_loop twins [Ref 3, Ref 2] [Ref 0, Ref 1] [] =
      merge_loop (merge_into twins 1 3) [Ref 2] [Ref 0] []" by simp
  have r6: "mergeKeys abcd = None" by (simp add: abcd_def constructor_def)
  have "\<forall>s\<in>set (takeWhile truthy_slot (records abcd)). \<forall>b'. s = Ref b' \<longrightarrow>
      pk_value abcd b' \<noteq> pk_value abcd 7"
    by (simp add: abcd_def constructor_def heap4_def raw_def read_key_def)
  with merge_match_rule[where c = abcd and a = 7,
      THEN conjunct2, THEN conjunct2, THEN conjunct2, THEN conjunct2, THEN conjunct1] r6
  have 6: "merge abcd (Single (Ref 7)) = step abcd (Add (Array [Ref 7]) NoIndex)" by blast
  have "list_all (\<lambda>m. m \<noteq> [] \<and> read_key (heap keyed 0) m = read_key (heap keyed 1) m) [''id''] \<and>
      ''a'' \<noteq> [] \<and> read_key (heap keyed 0) ''a'' \<noteq> read_key (heap keyed 1) ''a''"
    by code_simp
  with merge_match_rule[where r = "heap keyed 0" and cand = "heap keyed 1" and ks = "[''id'']"
      and m = "''a''" and post = "[''b'']" and v = "Num 1",
      THEN conjunct2, THEN conjunct2, THEN conjunct2, THEN conjunct2, THEN conjunct2, THEN conjunct2,
      THEN conjunct2, THEN conjunct2, THEN conjunct2, THEN conjunct2, THEN conjunct2]
  have 7: "keys_loop (heap keyed 0) (heap keyed 1) ([''id''] @ ''a'' # [''b'']) (False, Num 1)
     = (False, read_key (heap keyed 0) ''a'')" by blast
  from 1 2 3 4 5 6 7 show ?thesis by blast
qed

text \<open>
  With merge keys declared, the comparison of the merge keys assigns \<^verbatim>\<open>v\<close>, the variable that
  holds the primary key value of the item, and the next candidate's primary key is compared
  with what it left there. An incoming hash with no \<open>id\<close> and \<open>a = 5\<close> merges with the second
  local hash, of \<open>id = 5\<close>, which it does not match by key; and an incoming hash of \<open>id = 5\<close>
  is added although the second local hash has that \<open>id\<close>.
\<close>

lemma merge_key_value_leaks:
  "\<not> matches_by_key keyed2 4 2 \<and> \<not> matches_by_key keyed2 4 3 \<and>
   (case merge keyed2 (Single (Ref 4)) of
      Inl e \<Rightarrow> False
    | Inr c' \<Rightarrow> records c' = [Ref 2, Ref 3] \<and> read_key (heap c' 3) ''a'' = Num 5) \<and>
   matches_by_key keyed2 5 3 \<and>
   (case merge keyed2 (Single (Ref 5)) of
      Inl e \<Rightarrow> False
    | Inr c' \<Rightarrow> records c' = [Ref 2, Ref 3, Ref 5])"
  by code_simp

lemma read_key_merged:
  "read_key (ob\<lparr>attrs := attrs ob ++ attrs inc\<rparr>) k =
     (case attrs inc k of None \<Rightarrow> read_key ob k | Some v \<Rightarrow> v)"
  by (simp add: read_key_def map_add_def split: option.splits)

lemma read_key_merged_same:
  "read_key inc k = read_key ob k \<Longrightarrow> read_key (ob\<lparr>attrs := attrs ob ++ attrs inc\<rparr>) k = read_key ob k"
  by (auto simp: read_key_merged read_key_def split: option.splits)

lemma merge_into_key:
  assumes "read_key (heap c a) k = read_key (heap c b) k"
  shows "read_key (heap (merge_into c b a) x) k = read_key (heap c x) k"
  using assms by (simp add: merge_into_def read_key_merged_same)

lemma merge_into_config [simp]:
  "primaryKey (merge_into c b a) = primaryKey c" "mergeKeys (merge_into c b a) = mergeKeys c"
  by (simp_all add: merge_into_def)

lemma same_keys_Ref:
  "same_keys c (Ref a) (Ref b) \<longleftrightarrow>
     read_key (heap c a) (primaryKey c) = read_key (heap c b) (primaryKey c) \<and>
     (case mergeKeys c of
        None \<Rightarrow> defined (read_key (heap c a) (primaryKey c))
      | Some mk \<Rightarrow>
          list_all (\<lambda>m. read_key (heap c a) m = read_key (heap c b) m) mk \<and>
          (defined (read_key (heap c a) (primaryKey c)) \<or> (mk \<noteq> [] \<and> hd mk \<noteq> [])))"
  by (simp add: same_keys_def)

lemma same_keys_slots: "same_keys c r s \<Longrightarrow> \<exists>a b. r = Ref a \<and> s = Ref b"
  by (auto simp: same_keys_def split: slot.splits)

lemma same_keys_merge_into:
  assumes "same_keys c (Ref a) (Ref b)"
  shows "same_keys (merge_into c b a) r s = same_keys c r s"
proof (cases "\<exists>x y. r = Ref x \<and> s = Ref y")
  case False
  then show ?thesis by (auto simp: same_keys_def split: slot.splits)
next
  case True
  then obtain x y where rs: "r = Ref x" "s = Ref y" by blast
  from assms have pk: "read_key (heap c a) (primaryKey c) = read_key (heap c b) (primaryKey c)"
    by (simp add: same_keys_Ref)
  have pk': "\<And>z. read_key (heap (merge_into c b a) z) (primaryKey c) = read_key (heap c z) (primaryKey c)"
    by (rule merge_into_key[OF pk])
  show ?thesis
  proof (cases "mergeKeys c")
    case None
    with rs pk' show ?thesis by (simp add: same_keys_Ref)
  next
    case (Some mk)
    with assms have "list_all (\<lambda>m. read_key (heap c a) m = read_key (heap c b) m) mk"
      by (simp add: same_keys_Ref)
    then have "\<And>m z. m \<in> set mk \<Longrightarrow> read_key (heap (merge_into c b a) z) m = read_key (heap c z) m"
      by (intro merge_into_key) (simp add: list_all_iff)
    then have "list_all (\<lambda>m. read_key (heap (merge_into c b a) x) m = read_key (heap (merge_into c b a) y) m) mk
        = list_all (\<lambda>m. read_key (heap c x) m = read_key (heap c y) m) mk"
      by (simp add: list_all_iff)
    with rs pk' Some show ?thesis by (simp add: same_keys_Ref)
  qed
qed

lemma keys_match_all:
  "list_all (\<lambda>m. read_key r m = read_key cand m) mk \<Longrightarrow> mk \<noteq> [] \<Longrightarrow> hd mk \<noteq> [] \<Longrightarrow>
   keys_match r cand mk"
proof -
  assume a: "list_all (\<lambda>m. read_key r m = read_key cand m) mk" "mk \<noteq> []" "hd mk \<noteq> []"
  then have "takeWhile (\<lambda>m. m \<noteq> []) mk \<noteq> []" by (cases mk) auto
  moreover from a(1) have "list_all (\<lambda>m. read_key r m = read_key cand m) (takeWhile (\<lambda>m. m \<noteq> []) mk)"
    by (auto simp: list_all_iff dest: set_takeWhileD)
  ultimately show ?thesis by (simp add: keys_match_def Let_def)
qed

lemma merge_find_head:
  assumes "same_keys c (Ref a) (Ref b)"
  shows "merge_find c a (read_key (heap c a) (primaryKey c)) [] (Ref b # rest) = Some (b, rest)"
proof -
  let ?v = "read_key (heap c a) (primaryKey c)"
  have "fst (candidate_test c a ?v b)"
  proof (cases "defined ?v")
    case True
    with assms show ?thesis by (simp add: candidate_test_fst same_keys_Ref)
  next
    case False
    with assms obtain mk where "mergeKeys c = Some mk"
      "list_all (\<lambda>m. read_key (heap c a) m = read_key (heap c b) m) mk" "mk \<noteq> []" "hd mk \<noteq> []"
      by (auto simp: same_keys_Ref split: option.splits)
    with keys_match_all[OF this(2,3,4)] show ?thesis by (simp add: candidate_test_fst)
  qed
  then obtain v' where "candidate_test c a ?v b = (True, v')"
    by (cases "candidate_test c a ?v b") auto
  then show ?thesis by simp
qed

lemma merge_loop_matching:
  "list_all2 (same_keys c) rs local \<Longrightarrow> snd (merge_loop c rs local u) = u"
proof (induction rs arbitrary: c local)
  case Nil
  then show ?case by simp
next
  case (Cons r rs)
  from Cons.prems obtain s local' where l: "local = s # local'" "same_keys c r s"
    "list_all2 (same_keys c) rs local'" by (auto simp: list_all2_Cons1)
  from same_keys_slots[OF l(2)] obtain a b where rs: "r = Ref a" "s = Ref b" by blast
  from l(2) rs have sk: "same_keys c (Ref a) (Ref b)" by simp
  then have usable: "mergeKeys c \<noteq> None \<or> defined (read_key (heap c a) (primaryKey c))"
    by (auto simp: same_keys_Ref split: option.splits)
  from same_keys_merge_into[OF sk] have "same_keys (merge_into c b a) = same_keys c" by (intro ext)
  with l(3) have "list_all2 (same_keys (merge_into c b a)) rs local'" by simp
  from Cons.IH[OF this] have "snd (merge_loop (merge_into c b a) rs local' u) = u" .
  with rs l(1) usable merge_find_head[OF sk, of local'] show ?case by (simp add: Let_def)
qed

text \<open>
  C7: merging a batch that is equal by key to the current contents, item by item, returns,
  leaves the records and the length as they are and hands no event to the store; the
  attributes of the local objects take the incoming values.
\<close>

theorem merge_same_keys_adds_nothing:
  assumes "list_all2 (same_keys c) (toArray b) (records c)"
  shows "\<exists>c'. merge c b = Inr c' \<and> records c' = records c \<and> length_c c' = length_c c \<and>
           events c' = events c \<and> add_events (emitted c c') = []"
proof -
  have bt: "batch_truthy b"
  proof (cases b)
    case (Single r)
    with assms obtain s where "same_keys c r s" by (auto simp: list_all2_Cons1)
    from same_keys_slots[OF this] Single show ?thesis by auto
  qed simp
  obtain c1 u where ml: "merge_loop c (toArray b) (records c) [] = (c1, u)"
    by (cases "merge_loop c (toArray b) (records c) []")
  from merge_loop_matching[OF assms, of "[]"] ml have u: "u = []" by simp
  from merge_loop_shape[of c "toArray b" "records c" "[]"] ml have "shape c1 = shape c" by simp
  from shape_fields[OF this] have "records c1 = records c" "length_c c1 = length_c c" "events c1 = events c"
    by simp_all
  moreover from bt ml u have "merge c b = Inr c1" by (simp add: merge_def)
  ultimately show ?thesis by (simp add: emitted_def add_events_def)
qed

lemma twins_eval:
  "list_all2 (same_keys twins) (toArray (Array [Ref 2, Ref 3])) (records twins) \<and>
   (case merge twins (Array [Ref 2, Ref 3]) of
      Inl e \<Rightarrow> False
    | Inr c' \<Rightarrow> read_key (heap c' 0) ''v'' = Num 2 \<and> read_key (heap c' 1) ''v'' = Num 3)"
  by code_simp

theorem merge_same_keys_adds_nothing_witness:
  "list_all2 (same_keys twins) (toArray (Array [Ref 2, Ref 3])) (records twins) \<and>
   (\<exists>c'. merge twins (Array [Ref 2, Ref 3]) = Inr c' \<and> records c' = [Ref 0, Ref 1] \<and>
      length_c c' = 2 \<and> events c' = [] \<and> read_key (heap c' 0) ''v'' = Num 2)"
proof -
  from twins_eval have k: "list_all2 (same_keys twins) (toArray (Array [Ref 2, Ref 3])) (records twins)"
    by simp
  from merge_same_keys_adds_nothing[OF k] obtain c' where
    m: "merge twins (Array [Ref 2, Ref 3]) = Inr c'" "records c' = records twins"
       "length_c c' = length_c twins" "events c' = events twins" by blast
  from twins_eval m(1) have "read_key (heap c' 0) ''v'' = Num 2" by simp
  with k m show ?thesis by (simp add: twins_def constructor_def)
qed

section \<open>map and filter\<close>

declare map_loop.simps [simp del] filter_loop.simps [simp del]

lemma at_records:
  "length (records (snd (at c i))) = length (records c) \<and> length_c (snd (at c i)) = length_c c \<and>
   (\<forall>j. j \<noteq> i \<longrightarrow> records (snd (at c i)) ! j = records c ! j)"
  by (auto simp: at_def Let_def createRecord_def split: slot.splits)

lemma at_truthy:
  "truthy_slot (fst (at c i)) \<longleftrightarrow> i < length (records c) \<and> truthy_slot (records c ! i)"
  by (auto simp: at_def Let_def createRecord_def split: slot.splits)

lemma at_falsy: "\<not> truthy_slot (fst (at c i)) \<Longrightarrow> snd (at c i) = c"
  by (auto simp: at_def Let_def createRecord_def split: slot.splits if_splits)

lemma at_drop:
  "drop (Suc i) (take l (records (snd (at c i)))) = drop (Suc i) (take l (records c))"
proof (rule nth_equalityI)
  show "length (drop (Suc i) (take l (records (snd (at c i))))) = length (drop (Suc i) (take l (records c)))"
    by (simp add: at_records)
next
  fix j assume "j < length (drop (Suc i) (take l (records (snd (at c i)))))"
  then have j: "Suc i + j < l" "Suc i + j < length (records c)" by (auto simp: at_records)
  then show "drop (Suc i) (take l (records (snd (at c i)))) ! j = drop (Suc i) (take l (records c)) ! j"
    using at_records[of c i] by simp
qed

lemma prefix_Suc:
  assumes "i < l" "i < length xs" "truthy_slot (xs ! i)"
  shows "length (takeWhile truthy_slot (drop i (take l xs)))
       = Suc (length (takeWhile truthy_slot (drop (Suc i) (take l xs))))"
proof -
  from assms(1,2) have "drop i (take l xs) = xs ! i # drop (Suc i) (take l xs)"
    by (simp add: Cons_nth_drop_Suc[symmetric])
  with assms(3) show ?thesis by simp
qed

lemma prefix_zero:
  assumes "\<not> (i < l \<and> i < length xs \<and> truthy_slot (xs ! i))"
  shows "length (takeWhile truthy_slot (drop i (take l xs))) = 0"
proof (cases "i < l \<and> i < length xs")
  case True
  then have "drop i (take l xs) = xs ! i # drop (Suc i) (take l xs)"
    by (simp add: Cons_nth_drop_Suc[symmetric])
  with assms True show ?thesis by simp
next
  case False
  then have "drop i (take l xs) = []" by auto
  then show ?thesis by simp
qed

lemma upt_Suc_front: "[0..<Suc m] = 0 # map Suc [0..<m]"
  by (simp add: upt_conv_Cons map_Suc_upt del: upt_Suc)

lemma map_loop_visits:
  "map_loop c f i l fs =
     (fs @ map (\<lambda>k. f (resolved c i (Suc k)) (fst (at (resolved c i k) (i + k))) (i + k))
             [0..<length (takeWhile truthy_slot (drop i (take l (records c))))],
      resolved c i (length (takeWhile truthy_slot (drop i (take l (records c))))))"
proof (induction c f i l fs rule: map_loop.induct)
  case (1 c f i l fs)
  obtain r c1 where a: "at c i = (r, c1)" by (cases "at c i")
  show ?case
  proof (cases "i < l \<and> truthy_slot r")
    case True
    with a at_truthy[of c i] have t: "i < l" "i < length (records c)" "truthy_slot (records c ! i)"
      by simp_all
    let ?m1 = "length (takeWhile truthy_slot (drop (Suc i) (take l (records c))))"
    from prefix_Suc[OF t] have m: "length (takeWhile truthy_slot (drop i (take l (records c)))) = Suc ?m1" .
    from a at_drop[of i l c] have d: "drop (Suc i) (take l (records c1)) = drop (Suc i) (take l (records c))"
      by simp
    from True a have "map_loop c f i l fs = map_loop c1 f (Suc i) l (fs @ [f c1 r i])"
      by (subst map_loop.simps) simp
    also from "1.IH"[OF t(1) a[symmetric] True[THEN conjunct2]]
    have "\<dots> = ((fs @ [f c1 r i]) @ map (\<lambda>k. f (resolved c1 (Suc i) (Suc k))
                 (fst (at (resolved c1 (Suc i) k) (Suc i + k))) (Suc i + k)) [0..<?m1],
              resolved c1 (Suc i) ?m1)"
      by (simp add: d)
    also have "\<dots> = (fs @ map (\<lambda>k. f (resolved c i (Suc k)) (fst (at (resolved c i k) (i + k))) (i + k))
             [0..<Suc ?m1], resolved c i (Suc ?m1))"
      using a by (simp add: upt_Suc_front comp_def del: upt_Suc)
    finally show ?thesis by (simp only: m)
  next
    case False
    with a at_truthy[of c i] have "\<not> (i < l \<and> i < length (records c) \<and> truthy_slot (records c ! i))"
      by auto
    from prefix_zero[OF this] have m: "length (takeWhile truthy_slot (drop i (take l (records c)))) = 0" .
    from False a at_falsy[of c i] have "map_loop c f i l fs = (fs, c)"
      by (subst map_loop.simps) auto
    with m show ?thesis by simp
  qed
qed

lemma filter_loop_visits:
  "filter_loop c f i l fs =
     (fs @ map (\<lambda>k. fst (at (resolved c i k) (i + k)))
             (filter (\<lambda>k. f (resolved c i (Suc k)) (fst (at (resolved c i k) (i + k))) (i + k))
                [0..<length (takeWhile truthy_slot (drop i (take l (records c))))]),
      resolved c i (length (takeWhile truthy_slot (drop i (take l (records c))))))"
proof (induction c f i l fs rule: filter_loop.induct)
  case (1 c f i l fs)
  obtain r c1 where a: "at c i = (r, c1)" by (cases "at c i")
  show ?case
  proof (cases "i < l \<and> truthy_slot r")
    case True
    with a at_truthy[of c i] have t: "i < l" "i < length (records c)" "truthy_slot (records c ! i)"
      by simp_all
    let ?m1 = "length (takeWhile truthy_slot (drop (Suc i) (take l (records c))))"
    let ?fs1 = "if f c1 r i then fs @ [r] else fs"
    from prefix_Suc[OF t] have m: "length (takeWhile truthy_slot (drop i (take l (records c)))) = Suc ?m1" .
    from a at_drop[of i l c] have d: "drop (Suc i) (take l (records c1)) = drop (Suc i) (take l (records c))"
      by simp
    from True a have "filter_loop c f i l fs = filter_loop c1 f (Suc i) l ?fs1"
      by (subst filter_loop.simps) simp
    also from "1.IH"[OF t(1) a[symmetric] True[THEN conjunct2]]
    have "\<dots> = (?fs1 @ map (\<lambda>k. fst (at (resolved c1 (Suc i) k) (Suc i + k)))
             (filter (\<lambda>k. f (resolved c1 (Suc i) (Suc k)) (fst (at (resolved c1 (Suc i) k) (Suc i + k))) (Suc i + k))
                [0..<?m1]),
              resolved c1 (Suc i) ?m1)"
      by (simp add: d)
    also have "\<dots> = (fs @ map (\<lambda>k. fst (at (resolved c i k) (i + k)))
             (filter (\<lambda>k. f (resolved c i (Suc k)) (fst (at (resolved c i k) (i + k))) (i + k))
                [0..<Suc ?m1]), resolved c i (Suc ?m1))"
      using a by (simp add: upt_Suc_front comp_def filter_map del: upt_Suc)
    finally show ?thesis by (simp only: m)
  next
    case False
    with a at_truthy[of c i] have "\<not> (i < l \<and> i < length (records c) \<and> truthy_slot (records c ! i))"
      by auto
    from prefix_zero[OF this] have m: "length (takeWhile truthy_slot (drop i (take l (records c)))) = 0" .
    from False a at_falsy[of c i] have "filter_loop c f i l fs = (fs, c)"
      by (subst filter_loop.simps) auto
    with m show ?thesis by simp
  qed
qed

lemma visited_le: "visited c \<le> length_c c"
proof -
  have "visited c \<le> length (take (length_c c) (records c))"
    unfolding visited_def by (rule length_takeWhile_le)
  then show ?thesis by simp
qed

lemma visited_stops:
  assumes "k < length (records c)" "\<not> truthy_slot (records c ! k)"
  shows "visited c \<le> k"
proof (rule ccontr)
  assume "\<not> visited c \<le> k"
  then have k: "k < length (takeWhile truthy_slot (take (length_c c) (records c)))"
    by (simp add: visited_def)
  then have "takeWhile truthy_slot (take (length_c c) (records c)) ! k \<in> set (takeWhile truthy_slot (take (length_c c) (records c)))"
    by (rule nth_mem)
  then have "truthy_slot (takeWhile truthy_slot (take (length_c c) (records c)) ! k)"
    by (rule set_takeWhileD[THEN conjunct2])
  moreover from k have "takeWhile truthy_slot (take (length_c c) (records c)) ! k = take (length_c c) (records c) ! k"
    by (rule takeWhile_nth)
  moreover from k have "k < length_c c"
    using length_takeWhile_le[of truthy_slot "take (length_c c) (records c)"] by simp
  ultimately show False using assms by simp
qed

text \<open>
  C10: \<^verbatim>\<open>map\<close> and \<^verbatim>\<open>filter\<close> call \<^verbatim>\<open>at\<close> on the indices from 0 in order and stop at the
  first index, below the cached length, whose slot is falsy or missing. The callback gets
  the record \<^verbatim>\<open>at\<close> returned, the index and the collection as \<^verbatim>\<open>at\<close> left it; the slots
  from the falsy one on are not visited, so with a falsy slot at index \<open>k\<close> the result has
  at most \<open>k\<close> entries, whatever the length says.
\<close>

theorem iteration_stops_at_falsy:
  "map_c c f =
     (map (\<lambda>k. f (resolved c 0 (Suc k)) (fst (at (resolved c 0 k) k)) k) [0..<visited c],
      resolved c 0 (visited c)) \<and>
   filter_c c g =
     (map (\<lambda>k. fst (at (resolved c 0 k) k))
        (filter (\<lambda>k. g (resolved c 0 (Suc k)) (fst (at (resolved c 0 k) k)) k) [0..<visited c]),
      resolved c 0 (visited c)) \<and>
   visited c = length (takeWhile truthy_slot (take (length_c c) (records c))) \<and>
   visited c \<le> length_c c \<and>
   (k < length (records c) \<and> \<not> truthy_slot (records c ! k) \<longrightarrow>
      visited c \<le> k \<and> length (fst (map_c c f)) \<le> k \<and> length (fst (filter_c c g)) \<le> k)"
proof -
  have m: "map_c c f =
     (map (\<lambda>k. f (resolved c 0 (Suc k)) (fst (at (resolved c 0 k) k)) k) [0..<visited c],
      resolved c 0 (visited c))"
    by (simp add: map_c_def map_loop_visits visited_def)
  have fl: "filter_c c g =
     (map (\<lambda>k. fst (at (resolved c 0 k) k))
        (filter (\<lambda>k. g (resolved c 0 (Suc k)) (fst (at (resolved c 0 k) k)) k) [0..<visited c]),
      resolved c 0 (visited c))"
    by (simp add: filter_c_def filter_loop_visits visited_def)
  have lm: "length (fst (map_c c f)) = visited c" by (simp add: m)
  have "length (fst (filter_c c g)) \<le> length [0..<visited c]"
    unfolding fl fst_conv length_map by (rule length_filter_le)
  then have lf: "length (fst (filter_c c g)) \<le> visited c" by simp
  from m fl lm lf visited_le[of c] visited_stops[of k c] show ?thesis
    by (auto simp: visited_def)
qed

lemma holed_eval:
  "length_c holed = 3 \<and> 1 < length (records holed) \<and> \<not> truthy_slot (records holed ! 1) \<and>
   truthy_slot (records holed ! 2) \<and>
   fst (map_c holed index_of) = [0] \<and> fst (filter_c holed any_record) = [Ref 4]"
  by code_simp

theorem iteration_stops_at_falsy_witness:
  "length_c holed = 3 \<and> 1 < length (records holed) \<and> \<not> truthy_slot (records holed ! 1) \<and>
   truthy_slot (records holed ! 2) \<and> visited holed \<le> 1 \<and>
   length (fst (map_c holed index_of)) \<le> 1 \<and> length (fst (filter_c holed any_record)) \<le> 1 \<and>
   fst (map_c holed index_of) = [0] \<and> fst (filter_c holed any_record) = [Ref 4]"
proof -
  from holed_eval have h: "1 < length (records holed) \<and> \<not> truthy_slot (records holed ! 1)" by simp
  from iteration_stops_at_falsy[of holed index_of any_record 1] h
  have "visited holed \<le> 1 \<and> length (fst (map_c holed index_of)) \<le> 1 \<and>
        length (fst (filter_c holed any_record)) \<le> 1" by blast
  with holed_eval show ?thesis by simp
qed

section \<open>fetch\<close>

text \<open>
  On a collection whose slots are distinct objects, \<^verbatim>\<open>remove\<close> of all of them builds the
  index list \<open>[0, ..., n-1]\<close> and empties the records. \<^verbatim>\<open>fetch\<close> with the replace option
  then leaves the request queued, the records empty and every object as it was; with the
  destroy option, and every slot a record of the model kind, it also marks every record
  destroyed; with neither option it only queues the request.
\<close>

lemma enyo_indexOf_absent: "r \<notin> set xs \<Longrightarrow> enyo_indexOf r xs = - 1"
  by (induction xs) (auto simp: Let_def)

lemma enyo_indexOf_range: "- 1 \<le> enyo_indexOf r xs"
  by (induction xs) (auto simp: Let_def)

lemma enyo_indexOf_nth:
  "distinct xs \<Longrightarrow> j < length xs \<Longrightarrow> enyo_indexOf (xs ! j) xs = int j"
proof (induction xs arbitrary: j)
  case Nil
  then show ?case by simp
next
  case (Cons y ys)
  show ?case
  proof (cases j)
    case 0
    then show ?thesis by simp
  next
    case (Suc k)
    with Cons.prems have k: "k < length ys" "distinct ys" "ys ! k \<noteq> y" by auto
    from Cons.IH[OF k(2,1)] have "enyo_indexOf (ys ! k) ys = int k" .
    with Suc k(3) show ?thesis by (simp add: Let_def)
  qed
qed

lemma removal_loop_all: "n \<le> length xs \<Longrightarrow> removal_loop (rev [0..<n]) xs = drop n xs"
proof (induction n arbitrary: xs)
  case 0
  then show ?case by simp
next
  case (Suc n)
  then have "n \<le> length (splice_out xs n)" by (simp add: splice_out_def)
  from Suc.IH[OF this] Suc.prems show ?case by (simp add: splice_out_def)
qed

lemma remove_scan_all:
  assumes "distinct (records c)" "\<forall>s\<in>set (records c). truthy_slot s"
  shows "j \<le> length (records c) \<Longrightarrow> x \<le> j \<Longrightarrow>
     fst (remove_scan c (drop j (records c)) ([0..<j], d, x, 0)) = [0..<length (records c)]"
proof (induction "length (records c) - j" arbitrary: j d x)
  case 0
  then show ?case by simp
next
  case (Suc k)
  then have j: "j < length (records c)" by simp
  then have d: "drop j (records c) = records c ! j # drop (Suc j) (records c)"
    by (simp add: Cons_nth_drop_Suc)
  from j assms(2) have t: "truthy_slot (records c ! j)" by simp
  from enyo_indexOf_nth[OF assms(1) j] have i: "indexOf c (records c ! j) 0 = int j"
    by (simp add: indexOf_def)
  from Suc(2) j have k: "k = length (records c) - Suc j" by simp
  show ?case
  proof (cases "j = 0")
    case True
    with Suc.prems have x0: "x = 0" by simp
    have "remove_scan c (drop j (records c)) ([0..<j], d, x, 0)
        = remove_scan c (drop (Suc j) (records c)) ([0..<Suc j], AList.update j (records c ! j) d, x, 0)"
      using t i True by (subst d) simp
    with Suc(1)[OF k, of x "AList.update j (records c ! j) d"] j x0 show ?thesis by simp
  next
    case False
    with Suc.prems have n: "\<not> j \<le> 0" "x \<le> j" by simp_all
    have "remove_scan c (drop j (records c)) ([0..<j], d, x, 0)
        = remove_scan c (drop (Suc j) (records c)) ([0..<Suc j], AList.update j (records c ! j) d, j, 0)"
      using t i n by (subst d) simp
    with Suc(1)[OF k, of j "AList.update j (records c ! j) d"] j show ?thesis by simp
  qed
qed

lemma removeAll_distinct:
  assumes "idle c" "\<not> filtered c" "distinct (records c)" "\<forall>s\<in>set (records c). truthy_slot s"
  shows "\<exists>d c'. removeAll_c c = Inr (d, c') \<and> records c' = [] \<and> length_c c' = 0 \<and>
           heap c' = heap c \<and> pending c' = pending c"
proof -
  from assms(2) have r: "restore c = Inr c" by (simp add: restore_def)
  obtain rr d x m where sc: "remove_scan c (records c) ([], [], 0, 0) = (rr, d, x, m)"
    by (cases "remove_scan c (records c) ([], [], 0, 0)") auto
  from remove_scan_all[OF assms(3,4), of 0 0 "[]"] sc have rr: "rr = [0..<length (records c)]" by simp
  have "removeAll_c c = Inr (d, remove_finish (c\<lparr>records := removal_loop (rev rr) (records c)\<rparr>) (length_c c) rr d)"
    using r sc by (simp add: removeAll_c_def remove_c_def)
  moreover have "removal_loop (rev rr) (records c) = []" by (simp add: rr removal_loop_all)
  ultimately show ?thesis
    by (simp add: remove_finish_def Let_def notifyObservers_def triggerEvent_def)
qed

lemma fetch_replace_clears:
  assumes "idle c" "restore c = Inr c0" "distinct (records c0)" "\<forall>s\<in>set (records c0). truthy_slot s"
    and "opt_replace opts" "\<not> opt_destroy opts"
  shows "\<exists>c'. fetch c opts = Inr c' \<and> records c' = [] \<and> length_c c' = 0 \<and> heap c' = heap c \<and>
           pending c' = pending c0 @ [FetchRecord (with_strategy opts)]"
proof -
  define c1 where "c1 = c0\<lparr>pending := pending c0 @ [FetchRecord (with_strategy opts)]\<rparr>"
  from restore_idle[OF assms(1,2)] have "idle c1" "\<not> filtered c1"
    by (simp_all add: c1_def idle_def coherent_def)
  from removeAll_distinct[OF this] assms(3,4) obtain d c' where
    ra: "removeAll_c c1 = Inr (d, c')" "records c' = []" "length_c c' = 0" "heap c' = heap c1"
      "pending c' = pending c1" by (auto simp: c1_def)
  from assms(2,5,6) ra(1) have "fetch c opts = Inr c'" by (simp add: fetch_def c1_def Let_def)
  with ra restore_heap[OF assms(2)] show ?thesis by (simp add: c1_def)
qed

lemma fetch_plain_keeps:
  assumes "restore c = Inr c0" "\<not> opt_replace opts" "\<not> opt_destroy opts"
  shows "fetch c opts = Inr (c0\<lparr>pending := pending c0 @ [FetchRecord (with_strategy opts)]\<rparr>)"
  using assms by (simp add: fetch_def Let_def)

lemma update_fresh: "k \<notin> fst ` set al \<Longrightarrow> AList.update k v al = al @ [(k, v)]"
  by (induction al) auto

lemma remove_scan_all_hash:
  assumes "distinct (records c)" "\<forall>s\<in>set (records c). truthy_slot s"
  shows "j \<le> length (records c) \<Longrightarrow> x \<le> j \<Longrightarrow>
     fst (snd (remove_scan c (drop j (records c)) ([0..<j], map (\<lambda>k. (k, records c ! k)) [0..<j], x, 0)))
       = map (\<lambda>k. (k, records c ! k)) [0..<length (records c)]"
proof (induction "length (records c) - j" arbitrary: j x)
  case 0
  then show ?case by simp
next
  case (Suc k)
  let ?d = "map (\<lambda>k. (k, records c ! k)) [0..<j]"
  from Suc have j: "j < length (records c)" by simp
  then have d: "drop j (records c) = records c ! j # drop (Suc j) (records c)"
    by (simp add: Cons_nth_drop_Suc)
  from j assms(2) have t: "truthy_slot (records c ! j)" by simp
  from enyo_indexOf_nth[OF assms(1) j] have i: "indexOf c (records c ! j) 0 = int j"
    by (simp add: indexOf_def)
  from Suc(2) j have k: "k = length (records c) - Suc j" by simp
  have "j \<notin> fst ` set ?d" by auto
  from update_fresh[OF this] have u: "AList.update j (records c ! j) ?d
      = map (\<lambda>k. (k, records c ! k)) [0..<Suc j]" by simp
  show ?case
  proof (cases "j = 0")
    case True
    with Suc.prems have x0: "x = 0" by simp
    have "remove_scan c (drop j (records c)) ([0..<j], ?d, x, 0)
        = remove_scan c (drop (Suc j) (records c)) ([0..<Suc j], AList.update j (records c ! j) ?d, x, 0)"
      using t i True by (subst d) simp
    with Suc(1)[OF k, of x] j x0 u show ?thesis by simp
  next
    case False
    with Suc.prems have n: "\<not> j \<le> 0" "x \<le> j" by simp_all
    have "remove_scan c (drop j (records c)) ([0..<j], ?d, x, 0)
        = remove_scan c (drop (Suc j) (records c)) ([0..<Suc j], AList.update j (records c ! j) ?d, j, 0)"
      using t i n by (subst d) simp
    with Suc(1)[OF k, of j] j u show ?thesis by simp
  qed
qed

lemma removeAll_distinct_hash:
  assumes "idle c" "\<not> filtered c" "distinct (records c)" "\<forall>s\<in>set (records c). truthy_slot s"
  shows "\<exists>c'. removeAll_c c = Inr (map (\<lambda>k. (k, records c ! k)) [0..<length (records c)], c') \<and>
           records c' = [] \<and> length_c c' = 0 \<and> heap c' = heap c \<and> pending c' = pending c \<and>
           idle c'"
proof -
  from removeAll_distinct[OF assms] obtain d c' where
    ra: "removeAll_c c = Inr (d, c')" "records c' = []" "length_c c' = 0" "heap c' = heap c"
      "pending c' = pending c" by blast
  from assms(2) have r: "restore c = Inr c" by (simp add: restore_def)
  obtain rr d' x m where sc: "remove_scan c (records c) ([], [], 0, 0) = (rr, d', x, m)"
    by (cases "remove_scan c (records c) ([], [], 0, 0)") auto
  from remove_scan_all_hash[OF assms(3,4), of 0 0] sc
  have "d' = map (\<lambda>k. (k, records c ! k)) [0..<length (records c)]" by simp
  moreover from ra(1) r sc have "d = d'" by (simp add: removeAll_c_def remove_c_def)
  ultimately show ?thesis using ra removeAll_idle[OF assms(1) ra(1)] by simp
qed

lemma map_of_indexed: "map_of (map (\<lambda>k. (k, f k)) ks) k = (if k \<in> set ks then Some (f k) else None)"
  by (induction ks) auto

lemma destroy_each_models:
  assumes "\<forall>k\<in>set ks. \<exists>a. map_of rr k = Some (Ref a) \<and> is_model (heap c a)"
  shows "\<exists>c'. destroy_each c rr ks = Inr c' \<and> shape c' = shape c \<and>
           (\<forall>a. is_model (heap c' a) = is_model (heap c a)) \<and>
           (\<forall>a. destroyed (heap c a) \<longrightarrow> destroyed (heap c' a)) \<and>
           (\<forall>k\<in>set ks. \<forall>a. map_of rr k = Some (Ref a) \<longrightarrow> destroyed (heap c' a))"
  using assms
proof (induction ks arbitrary: c)
  case Nil
  then show ?case by simp
next
  case (Cons k ks)
  then obtain a where a: "map_of rr k = Some (Ref a)" "is_model (heap c a)" by auto
  let ?c1 = "destroy_record c a"
  have h1: "\<forall>x. is_model (heap ?c1 x) = is_model (heap c x)" "destroyed (heap ?c1 a)"
    "\<forall>x. destroyed (heap c x) \<longrightarrow> destroyed (heap ?c1 x)"
    by (simp_all add: destroy_record_def)
  with Cons.prems have "\<forall>k\<in>set ks. \<exists>a. map_of rr k = Some (Ref a) \<and> is_model (heap ?c1 a)" by simp
  from Cons.IH[OF this] obtain c' where
    c': "destroy_each ?c1 rr ks = Inr c'" "shape c' = shape ?c1"
      "\<forall>a. is_model (heap c' a) = is_model (heap ?c1 a)"
      "\<forall>a. destroyed (heap ?c1 a) \<longrightarrow> destroyed (heap c' a)"
      "\<forall>k\<in>set ks. \<forall>a. map_of rr k = Some (Ref a) \<longrightarrow> destroyed (heap c' a)" by blast
  from a c'(1) have "destroy_each c rr (k # ks) = Inr c'" by simp
  with a c' h1 show ?case by auto
qed

lemma fetch_destroy_clears:
  assumes "idle c" "restore c = Inr c0" "distinct (records c0)"
    and "\<forall>s\<in>set (records c0). \<exists>a. s = Ref a \<and> is_model (heap c a)"
    and "opt_destroy opts"
  shows "\<exists>c'. fetch c opts = Inr c' \<and> records c' = [] \<and> length_c c' = 0 \<and>
           (\<forall>a. Ref a \<in> set (records c0) \<longrightarrow> destroyed (heap c' a)) \<and>
           pending c' = pending c0 @ [FetchRecord (with_strategy opts)]"
proof -
  define c1 where "c1 = c0\<lparr>pending := pending c0 @ [FetchRecord (with_strategy opts)]\<rparr>"
  let ?n = "length (records c0)"
  let ?d = "map (\<lambda>k. (k, records c0 ! k)) [0..<?n]"
  from restore_idle[OF assms(1,2)] have i1: "idle c1" "\<not> filtered c1"
    by (simp_all add: c1_def idle_def coherent_def)
  from assms(4) have tr: "\<forall>s\<in>set (records c1). truthy_slot s" by (auto simp: c1_def)
  from removeAll_distinct_hash[OF i1 _ tr] assms(3) obtain c2 where
    ra: "removeAll_c c1 = Inr (?d, c2)" "records c2 = []" "length_c c2 = 0" "heap c2 = heap c1"
      "pending c2 = pending c1" by (auto simp: c1_def)
  from restore_heap[OF assms(2)] have hp: "heap c1 = heap c" by (simp add: c1_def)
  let ?c3 = "c2\<lparr>destroyAll_flag := True\<rparr>"
  have "\<forall>k\<in>set [0..<?n]. \<exists>a. map_of ?d k = Some (Ref a) \<and> is_model (heap ?c3 a)"
    using assms(4) ra(4) hp by (auto simp: map_of_indexed)
  from destroy_each_models[OF this] obtain c4 where
    de: "destroy_each ?c3 ?d [0..<?n] = Inr c4" "shape c4 = shape ?c3"
      "\<forall>k\<in>set [0..<?n]. \<forall>a. map_of ?d k = Some (Ref a) \<longrightarrow> destroyed (heap c4 a)" by blast
  have keys: "sort (map fst ?d) = [0..<?n]" by (simp add: comp_def)
  from ra(1) de(1) keys have da: "destroyAll c1 = Inr (c4\<lparr>destroyAll_flag := False\<rparr>)"
    by (simp add: destroyAll_def)
  from assms(2,5) da have f: "fetch c opts = Inr (c4\<lparr>destroyAll_flag := False\<rparr>)"
    by (simp add: fetch_def c1_def Let_def)
  have "\<forall>a. Ref a \<in> set (records c0) \<longrightarrow> destroyed (heap c4 a)"
  proof (intro allI impI)
    fix a assume "Ref a \<in> set (records c0)"
    then obtain k where "k < ?n" "records c0 ! k = Ref a" by (auto simp: in_set_conv_nth)
    with de(3) show "destroyed (heap c4 a)" by (simp add: map_of_indexed)
  qed
  with f shape_fields[OF de(2)] ra(2,3,5) show ?thesis by (simp add: c1_def)
qed

text \<open>
  C9: with the destroy option, \<^verbatim>\<open>fetch\<close> removes and destroys all current records. On a
  collection whose first slot is still a raw hash, \<^verbatim>\<open>destroyAll\<close> calls \<^verbatim>\<open>destroy()\<close> on the
  hash: the call raises a TypeError, and the record behind it is not destroyed. The
  records are removed by then, \<^verbatim>\<open>_destroyAll\<close> stays set and the request is queued.
\<close>

theorem fetch_destroy_raises:
  "(case fetch mixed \<lparr>opt_replace = False, opt_destroy = True, opt_strategy = None\<rparr> of
      Inl (e, c) \<Rightarrow>
        e = TypeError \<and> records c = [] \<and> destroyAll_flag c \<and> \<not> destroyed (heap c 1) \<and>
        pending c = [FetchRecord \<lparr>opt_replace = False, opt_destroy = True, opt_strategy = Some AddMethod\<rparr>]
    | Inr c \<Rightarrow> False)"
  by code_simp

end
